theory Spec2Isabelle
  imports Main "HOL-Library.Multiset" "HOL-Library.Word"
begin

section \<open>The file organizer: data model\<close>

text \<open>
  The Go struct \<open>File\<close> of \<open>main.go\<close>. Go strings are byte sequences, so a
  \<open>string\<close> (a list of 8-bit characters) holds them as they are. \<open>Size\<close> is an
  \<open>int64\<close>, read as a signed 64-bit word. \<open>ModTime\<close> is never inspected by the
  program; it is carried as an opaque number.
\<close>

record File =
  Name :: string
  Path :: string
  Size :: "64 word"
  ModTime :: int
  IsDir :: bool
  Category :: string
  Extension :: string

text \<open>
  The package-level map \<open>Categories\<close>, written as the list of its key/value pairs in
  the order of the source text. A Go \<open>range\<close> over a map visits the pairs in an
  unspecified order that may change from one loop to the next, so the loop of
  \<open>Categorize\<close> takes the visiting order as an argument: any list with the same
  pairs as \<open>Categories\<close>.
\<close>

definition Categories :: "(string \<times> string list) list" where
  "Categories =
    [(''Images'', [''.jpg'', ''.jpeg'', ''.png'', ''.gif'']),
     (''Docs'', [''.pdf'', ''.docx'', ''.txt'', ''.md'']),
     (''Videos'', [''.mp4'', ''.mov'', ''.avi'', ''.mkv'']),
     (''Audio'', [''.mp3'', ''.wav'', ''.ogg''])]"

definition rangeOrder :: "(string \<times> string list) list \<Rightarrow> bool" where
  "rangeOrder visit = (mset visit = mset Categories)"

section \<open>Classifier\<close>

text \<open>The inner loop \<open>for _, e := range exts\<close>: is \<open>ext\<close> one of \<open>exts\<close>?\<close>

fun matchExts :: "string \<Rightarrow> string list \<Rightarrow> bool" where
  "matchExts ext [] = False"
| "matchExts ext (e # es) = (if ext = e then True else matchExts ext es)"

text \<open>
  The outer loop \<open>for category, exts := range Categories\<close> over a visiting order:
  the first category whose extensions hold \<open>ext\<close>, or nothing when the loop runs out.
\<close>

fun rangeCategories :: "string \<Rightarrow> (string \<times> string list) list \<Rightarrow> string option" where
  "rangeCategories ext [] = None"
| "rangeCategories ext ((category, exts) # rest) =
     (if matchExts ext exts then Some category else rangeCategories ext rest)"

definition Categorize :: "(string \<times> string list) list \<Rightarrow> File \<Rightarrow> File" where
  "Categorize visit f =
     (if IsDir f then f\<lparr>Category := ''Folder''\<rparr>
      else case rangeCategories (Extension f) visit of
             Some category \<Rightarrow> f\<lparr>Category := category\<rparr>
           | None \<Rightarrow> f\<lparr>Category := ''Other''\<rparr>)"

section \<open>The library functions the program calls\<close>

text \<open>
  \<open>main.go\<close> calls \<open>strings.ToLower\<close>, \<open>strings.TrimSpace\<close>,
  \<open>filepath.Ext\<close>, \<open>filepath.Join\<close>, \<open>filepath.Dir\<close>, \<open>os.ReadDir\<close>,
  \<open>os.MkdirAll\<close> and \<open>os.Rename\<close>. They belong to the Go standard library, not to
  the repository; each is modelled here after the library's implementation for a Unix
  system, where the only path separator is \<open>/\<close> and there are no volume names.
\<close>

subsection \<open>filepath.Ext\<close>

definition IsPathSeparator :: "char \<Rightarrow> bool" where
  "IsPathSeparator c = (c = CHR ''/'')"

text \<open>
  \<open>filepath.Ext\<close> walks from the last byte towards the first, stops at a separator and
  returns the suffix that starts at the first dot it meets. \<open>extScan\<close> is that loop:
  its first argument holds the bytes not yet visited (last byte first), its second the
  bytes already passed.
\<close>

fun extScan :: "string \<Rightarrow> string \<Rightarrow> string" where
  "extScan [] suffix = []"
| "extScan (c # front) suffix =
     (if IsPathSeparator c then []
      else if c = CHR ''.'' then c # suffix
      else extScan front (c # suffix))"

definition filepath_Ext :: "string \<Rightarrow> string" where
  "filepath_Ext path = extScan (rev path) []"

subsection \<open>strings.ToLower\<close>

text \<open>
  \<open>strings.ToLower\<close> has two paths. A string of ASCII bytes only is returned as it is
  when it has no upper-case letter, and otherwise with \<open>'a' - 'A'\<close> added to each byte
  between \<open>'A'\<close> and \<open>'Z'\<close>. Any other string goes through
  \<open>strings.Map(unicode.ToLower, s)\<close>, which depends on the Unicode case tables; that
  function is the parameter \<open>unicodeLower\<close>.
\<close>

definition isASCII :: "char \<Rightarrow> bool" where
  "isASCII c = (of_char c < (128::nat))"

definition isUpperASCII :: "char \<Rightarrow> bool" where
  "isUpperASCII c = (65 \<le> (of_char c :: nat) \<and> (of_char c :: nat) \<le> 90)"

definition lowerASCII :: "char \<Rightarrow> char" where
  "lowerASCII c = (if isUpperASCII c then char_of (of_char c + (32::nat)) else c)"

definition strings_ToLower :: "(string \<Rightarrow> string) \<Rightarrow> string \<Rightarrow> string" where
  "strings_ToLower unicodeLower s =
     (if list_all isASCII s
      then (if list_ex isUpperASCII s then map lowerASCII s else s)
      else unicodeLower s)"

subsection \<open>strings.TrimSpace\<close>

text \<open>
  \<open>strings.TrimSpace\<close> removes the leading and the trailing white space of a string,
  "as defined by Unicode": the runes for which \<open>unicode.IsSpace\<close> holds. These are
  U+0009 to U+000D, U+0020, U+0085, U+00A0, U+1680, U+2000 to U+200A, U+2028, U+2029,
  U+202F, U+205F and U+3000; \<open>spaceRunes\<close> lists their UTF-8 encodings. A byte
  sequence that is no valid encoding decodes to U+FFFD, which is no white space, so
  trimming stops there: removing white-space runes from the front is removing
  encodings of \<open>spaceRunes\<close> from the front, and likewise from the back (every
  encoding begins with a byte that starts a rune and continues with bytes that do not,
  so decoding the last rune of a string that ends with one finds exactly it).
\<close>

definition spaceRunes :: "string list" where
  "spaceRunes =
    [[CHR 0x09], [CHR 0x0A], [CHR 0x0B], [CHR 0x0C], [CHR 0x0D], [CHR 0x20],
     [CHR 0xC2, CHR 0x85], [CHR 0xC2, CHR 0xA0],
     [CHR 0xE1, CHR 0x9A, CHR 0x80],
     [CHR 0xE2, CHR 0x80, CHR 0x80], [CHR 0xE2, CHR 0x80, CHR 0x81],
     [CHR 0xE2, CHR 0x80, CHR 0x82], [CHR 0xE2, CHR 0x80, CHR 0x83],
     [CHR 0xE2, CHR 0x80, CHR 0x84], [CHR 0xE2, CHR 0x80, CHR 0x85],
     [CHR 0xE2, CHR 0x80, CHR 0x86], [CHR 0xE2, CHR 0x80, CHR 0x87],
     [CHR 0xE2, CHR 0x80, CHR 0x88], [CHR 0xE2, CHR 0x80, CHR 0x89],
     [CHR 0xE2, CHR 0x80, CHR 0x8A],
     [CHR 0xE2, CHR 0x80, CHR 0xA8], [CHR 0xE2, CHR 0x80, CHR 0xA9],
     [CHR 0xE2, CHR 0x80, CHR 0xAF],
     [CHR 0xE2, CHR 0x81, CHR 0x9F],
     [CHR 0xE3, CHR 0x80, CHR 0x80]]"

text \<open>\<open>stripOne rs s\<close> removes from the front of \<open>s\<close> the first of \<open>rs\<close> it starts with.\<close>

fun stripOne :: "string list \<Rightarrow> string \<Rightarrow> string option" where
  "stripOne [] s = None"
| "stripOne (r # rs) s =
     (if r \<noteq> [] \<and> take (length r) s = r then Some (drop (length r) s) else stripOne rs s)"

lemma stripOne_shorter: "stripOne rs s = Some rest \<Longrightarrow> length rest < length s"
proof (induction rs)
  case Nil
  then show ?case by simp
next
  case (Cons r rs)
  show ?case
  proof (cases "r \<noteq> [] \<and> take (length r) s = r")
    case True
    then have "s \<noteq> []" by auto
    with True Cons.prems show ?thesis by auto
  next
    case False
    with Cons show ?thesis by auto
  qed
qed

function trimRunes :: "string list \<Rightarrow> string \<Rightarrow> string" where
  "trimRunes rs s = (case stripOne rs s of None \<Rightarrow> s | Some rest \<Rightarrow> trimRunes rs rest)"
  by pat_completeness auto
termination
  by (relation "measure (\<lambda>(rs, s). length s)") (auto dest: stripOne_shorter)

declare trimRunes.simps [simp del]

definition TrimLeftSpace :: "string \<Rightarrow> string" where
  "TrimLeftSpace s = trimRunes spaceRunes s"

definition TrimRightSpace :: "string \<Rightarrow> string" where
  "TrimRightSpace s = rev (trimRunes (map rev spaceRunes) (rev s))"

definition strings_TrimSpace :: "string \<Rightarrow> string" where
  "strings_TrimSpace s = TrimRightSpace (TrimLeftSpace s)"

subsection \<open>filepath.Clean, filepath.Join and filepath.Dir\<close>

text \<open>
  \<open>filepath.Clean\<close> rewrites a path element by element: empty elements and \<open>.\<close>
  are dropped, \<open>..\<close> removes the element before it when there is one that is not
  itself \<open>..\<close>, is dropped at the root, and is kept otherwise; what remains is joined
  with single separators, and the empty result is written \<open>.\<close>. \<open>cleanElems\<close> is the
  loop over the elements; \<open>out\<close> is the output buffer, last element first.
\<close>

fun splitSep :: "string \<Rightarrow> string list" where
  "splitSep [] = [[]]"
| "splitSep (c # cs) =
     (if IsPathSeparator c then [] # splitSep cs
      else case splitSep cs of [] \<Rightarrow> [[c]] | e # es \<Rightarrow> (c # e) # es)"

fun joinSep :: "string list \<Rightarrow> string" where
  "joinSep [] = []"
| "joinSep [e] = e"
| "joinSep (e # es) = e @ CHR ''/'' # joinSep es"

fun cleanElems :: "bool \<Rightarrow> string list \<Rightarrow> string list \<Rightarrow> string list" where
  "cleanElems rooted [] out = rev out"
| "cleanElems rooted (e # es) out =
     (if e = [] \<or> e = ''.'' then cleanElems rooted es out
      else if e = ''..'' then
        (if out \<noteq> [] \<and> hd out \<noteq> ''..'' then cleanElems rooted es (tl out)
         else if \<not> rooted then cleanElems rooted es (''..'' # out)
         else cleanElems rooted es out)
      else cleanElems rooted es (e # out))"

definition isRooted :: "string \<Rightarrow> bool" where
  "isRooted path = (path \<noteq> [] \<and> IsPathSeparator (hd path))"

definition renderPath :: "bool \<Rightarrow> string list \<Rightarrow> string" where
  "renderPath rooted elems =
     (if elems = [] then (if rooted then ''/'' else ''.'')
      else (if rooted then ''/'' else []) @ joinSep elems)"

definition filepath_Clean :: "string \<Rightarrow> string" where
  "filepath_Clean path =
     renderPath (isRooted path) (cleanElems (isRooted path) (splitSep path) [])"

text \<open>
  \<open>filepath.Join\<close> skips the leading empty elements, joins the others with the
  separator and cleans the result; with no element left it returns the empty string.
\<close>

definition filepath_Join :: "string list \<Rightarrow> string" where
  "filepath_Join elem =
     (case dropWhile (\<lambda>e. e = []) elem of
        [] \<Rightarrow> []
      | rest \<Rightarrow> filepath_Clean (joinSep rest))"

text \<open>
  \<open>filepath.Dir\<close> cleans what stands before the last element of the path:
  \<open>dirPrefix\<close> is \<open>path[:i+1]\<close> for the index \<open>i\<close> of the last separator.
\<close>

definition dirPrefix :: "string \<Rightarrow> string" where
  "dirPrefix path = rev (dropWhile (\<lambda>c. \<not> IsPathSeparator c) (rev path))"

definition filepath_Dir :: "string \<Rightarrow> string" where
  "filepath_Dir path = filepath_Clean (dirPrefix path)"

section \<open>Validator\<close>

text \<open>
  A Go \<open>error\<close> is modelled by its message: \<open>None\<close> is \<open>nil\<close>, and
  \<open>fmt.Errorf("...: %v", err)\<close> prepends its text to the message of \<open>err\<close>.
  \<open>file.Size <= 0\<close> is the signed comparison of 64-bit integers.
\<close>

definition isFileValid :: "File \<Rightarrow> string option" where
  "isFileValid file =
     (if IsDir file then None
      else if strings_TrimSpace (Name file) = [] then Some ''filename cannot be empty''
      else if word_sle (Size file) 0 then Some ''file size must be positive''
      else None)"

section \<open>Directory scanner\<close>

text \<open>
  What the operating system answers is an input of the model. \<open>os.ReadDir\<close> returns
  the entries it could read together with an error or \<open>nil\<close>; an entry gives its name
  and whether it is a directory, and its \<open>Info()\<close> either fails with an error or
  returns the metadata, of which the program reads the size and the modification time.
\<close>

record FileInfo =
  InfoSize :: "64 word"
  InfoModTime :: int

record DirEntry =
  EntryName :: string
  EntryIsDir :: bool
  EntryInfo :: "string + FileInfo"

text \<open>
  The lines the program prints are kept as a list of messages, one constructor for each
  \<open>fmt.Printf\<close> of \<open>scanDir\<close> and \<open>processFile\<close>, holding the values it formats
  (the elapsed time of \<open>Processed\<close> is not modelled).
\<close>

datatype message =
    Skipping string string
  | WouldMove string string
  | Processed string

text \<open>The composite literal \<open>File{...}\<close> that \<open>scanDir\<close> builds for an entry.\<close>

definition newFile :: "(string \<Rightarrow> string) \<Rightarrow> string \<Rightarrow> DirEntry \<Rightarrow> FileInfo \<Rightarrow> File" where
  "newFile unicodeLower dirPath entry info =
     \<lparr>Name = EntryName entry,
      Path = filepath_Join [dirPath, EntryName entry],
      Size = InfoSize info,
      ModTime = InfoModTime info,
      IsDir = EntryIsDir entry,
      Category = [],
      Extension = strings_ToLower unicodeLower (filepath_Ext (EntryName entry))\<rparr>"

text \<open>
  The loop of \<open>scanDir\<close> over the entries, with the slice \<open>files\<close> and the printed
  lines as its state. \<open>i\<close> counts the entries visited so far, and \<open>visits i\<close> is the
  order in which the call of \<open>Categorize\<close> for entry \<open>i\<close> ranges over the map.
\<close>

fun scanEntries ::
  "(string \<Rightarrow> string) \<Rightarrow> (nat \<Rightarrow> (string \<times> string list) list) \<Rightarrow> string
    \<Rightarrow> nat \<Rightarrow> DirEntry list \<Rightarrow> File list \<times> message list \<Rightarrow> File list \<times> message list" where
  "scanEntries unicodeLower visits dirPath i [] (files, out) = (files, out)"
| "scanEntries unicodeLower visits dirPath i (entry # entries) (files, out) =
     (case EntryInfo entry of
        Inl err \<Rightarrow>
          scanEntries unicodeLower visits dirPath (Suc i) entries
            (files, out @ [Skipping (EntryName entry) err])
      | Inr info \<Rightarrow>
          scanEntries unicodeLower visits dirPath (Suc i) entries
            (files @ [Categorize (visits i) (newFile unicodeLower dirPath entry info)], out))"

definition scanDir ::
  "(string \<Rightarrow> string) \<Rightarrow> (nat \<Rightarrow> (string \<times> string list) list)
    \<Rightarrow> (string \<Rightarrow> DirEntry list \<times> string option) \<Rightarrow> string
    \<Rightarrow> (string + File list) \<times> message list" where
  "scanDir unicodeLower visits os_ReadDir dirPath =
     (case os_ReadDir dirPath of
        (entries, Some err) \<Rightarrow> (Inl (''failed to read directory: '' @ err), [])
      | (entries, None) \<Rightarrow>
          (case scanEntries unicodeLower visits dirPath 0 entries ([], []) of
             (files, out) \<Rightarrow> (Inr files, out)))"

section \<open>The file system\<close>

text \<open>
  The state that \<open>os.MkdirAll\<close> and \<open>os.Rename\<close> act on: what exists under each
  cleaned path, a directory or a regular file (with a number standing for its content).
  Names are resolved lexically, as \<open>filepath.Clean\<close> does (there are no symbolic
  links); the working directory \<open>.\<close> and the root \<open>/\<close> always exist. The calls fail
  for the structural reasons of \<open>mkdir(2)\<close> and \<open>rename(2)\<close> (a missing or
  non-directory parent, an existing target); permissions, quotas and devices are not
  part of the model.
\<close>

datatype node = Directory | Regular nat

type_synonym filesystem = "string \<Rightarrow> node option"

definition os_Stat :: "filesystem \<Rightarrow> string \<Rightarrow> node option" where
  "os_Stat fs path =
     (if path = [] then None
      else if filepath_Clean path = ''.'' \<or> filepath_Clean path = ''/'' then Some Directory
      else fs (filepath_Clean path))"

definition syscall_Mkdir :: "string \<Rightarrow> filesystem \<Rightarrow> string option \<times> filesystem" where
  "syscall_Mkdir path fs =
     (case os_Stat fs path of
        Some n \<Rightarrow> (Some (''mkdir '' @ path @ '': file exists''), fs)
      | None \<Rightarrow>
          (if path = [] then (Some (''mkdir '' @ path @ '': no such file or directory''), fs)
           else case os_Stat fs (filepath_Dir (filepath_Clean path)) of
                  None \<Rightarrow> (Some (''mkdir '' @ path @ '': no such file or directory''), fs)
                | Some (Regular c) \<Rightarrow> (Some (''mkdir '' @ path @ '': not a directory''), fs)
                | Some Directory \<Rightarrow> (None, fs(filepath_Clean path \<mapsto> Directory))))"

text \<open>
  \<open>os.MkdirAll\<close>, after its source: succeed at once on an existing directory, fail on
  an existing file; otherwise make the parent first (\<open>mkdirParent\<close> is the prefix the
  two backward loops of the source cut off: trailing separators are skipped, then the
  last element), then call \<open>Mkdir\<close>, and on its failure look once more whether the
  directory is there.
\<close>

definition mkdirParent :: "string \<Rightarrow> string" where
  "mkdirParent path =
     rev (dropWhile (\<lambda>c. \<not> IsPathSeparator c) (dropWhile IsPathSeparator (rev path)))"

lemma mkdirParent_shorter: "mkdirParent path \<noteq> [] \<Longrightarrow> length (mkdirParent path) < length path"
proof -
  assume a: "mkdirParent path \<noteq> []"
  define xs where "xs = dropWhile IsPathSeparator (rev path)"
  have mp: "mkdirParent path = rev (dropWhile (\<lambda>c. \<not> IsPathSeparator c) xs)"
    by (simp add: mkdirParent_def xs_def)
  with a have ne: "xs \<noteq> []" by auto
  then have "\<not> IsPathSeparator (hd xs)" unfolding xs_def by (rule hd_dropWhile)
  with ne have "dropWhile (\<lambda>c. \<not> IsPathSeparator c) xs
                = dropWhile (\<lambda>c. \<not> IsPathSeparator c) (tl xs)"
    by (cases xs) auto
  then have "length (mkdirParent path)
               = length (dropWhile (\<lambda>c. \<not> IsPathSeparator c) (tl xs))"
    by (simp add: mp)
  also have "\<dots> \<le> length (tl xs)" by (rule length_dropWhile_le)
  also from ne have "\<dots> < length xs" by (cases xs) auto
  also have "\<dots> \<le> length (rev path)" unfolding xs_def by (rule length_dropWhile_le)
  finally show ?thesis by simp
qed

function os_MkdirAll :: "string \<Rightarrow> filesystem \<Rightarrow> string option \<times> filesystem" where
  "os_MkdirAll path fs =
     (case os_Stat fs path of
        Some Directory \<Rightarrow> (None, fs)
      | Some (Regular c) \<Rightarrow> (Some (''mkdir '' @ path @ '': not a directory''), fs)
      | None \<Rightarrow>
          (case (if mkdirParent path \<noteq> [] then os_MkdirAll (mkdirParent path) fs
                 else (None, fs)) of
             (Some err, fs1) \<Rightarrow> (Some err, fs1)
           | (None, fs1) \<Rightarrow>
               (case syscall_Mkdir path fs1 of
                  (None, fs2) \<Rightarrow> (None, fs2)
                | (Some err, fs2) \<Rightarrow>
                    (case os_Stat fs2 path of
                       Some Directory \<Rightarrow> (None, fs2)
                     | _ \<Rightarrow> (Some err, fs2)))))"
  by pat_completeness auto
termination
  by (relation "measure (\<lambda>(path, fs). length path)") (auto dest: mkdirParent_shorter)

declare os_MkdirAll.simps [simp del]

text \<open>
  \<open>rename(2)\<close>: the source must exist and the target's directory must be a directory;
  a regular file replaces a regular file of the target name; a directory moves with
  everything below it, to a name that is free and not below itself.
\<close>

definition below :: "string \<Rightarrow> string \<Rightarrow> bool" where
  "below dir path = (take (Suc (length dir)) path = dir @ ''/'')"

definition syscall_Rename :: "string \<Rightarrow> string \<Rightarrow> filesystem \<Rightarrow> string option \<times> filesystem" where
  "syscall_Rename oldpath newpath fs =
     (let old = filepath_Clean oldpath; new = filepath_Clean newpath in
      if oldpath = [] \<or> newpath = [] then (Some ''no such file or directory'', fs)
      else case os_Stat fs old of
        None \<Rightarrow> (Some ''no such file or directory'', fs)
      | Some n \<Rightarrow>
          (case os_Stat fs (filepath_Dir new) of
             None \<Rightarrow> (Some ''no such file or directory'', fs)
           | Some (Regular c) \<Rightarrow> (Some ''not a directory'', fs)
           | Some Directory \<Rightarrow>
               (if old = new then (None, fs)
                else case n of
                  Regular c \<Rightarrow>
                    (if os_Stat fs new = Some Directory then (Some ''is a directory'', fs)
                     else (None, fs(old := None, new \<mapsto> Regular c)))
                | Directory \<Rightarrow>
                    (if old = ''.'' \<or> old = ''/'' then (Some ''device or resource busy'', fs)
                     else if below old new then (Some ''invalid argument'', fs)
                     else case os_Stat fs new of
                       Some (Regular c) \<Rightarrow> (Some ''not a directory'', fs)
                     | Some Directory \<Rightarrow> (Some ''directory not empty'', fs)
                     | None \<Rightarrow>
                         (None, (\<lambda>p. if p = new then Some Directory
                                     else if below new p
                                       then fs (old @ drop (length new) p)
                                     else if p = old \<or> below old p then None
                                     else fs p))))))"

text \<open>
  \<open>os.Rename\<close> on Unix first refuses a target that is an existing directory (unless
  the two names are different names of one file), reporting the error of the source
  when the source is missing and \<open>file exists\<close> otherwise; then it calls
  \<open>rename(2)\<close> and wraps its error.
\<close>

definition os_Rename :: "string \<Rightarrow> string \<Rightarrow> filesystem \<Rightarrow> string option \<times> filesystem" where
  "os_Rename oldname newname fs =
     (let wrap = (\<lambda>e. ''rename '' @ oldname @ '' '' @ newname @ '': '' @ e) in
      if os_Stat fs newname = Some Directory
         \<and> (os_Stat fs oldname = None \<or> newname = oldname
              \<or> filepath_Clean newname \<noteq> filepath_Clean oldname)
      then (if os_Stat fs oldname = None then (Some (wrap ''no such file or directory''), fs)
            else (Some (wrap ''file exists''), fs))
      else case syscall_Rename oldname newname fs of
             (Some e, fs') \<Rightarrow> (Some (wrap e), fs')
           | (None, fs') \<Rightarrow> (None, fs'))"

section \<open>File processor\<close>

text \<open>
  \<open>processFile\<close> acts on the file system and prints; both make up the \<open>world\<close> it
  takes and returns. The deferred function prints the \<open>Processed\<close> line when
  \<open>processFile\<close> returns, whatever it returns, so that line is appended last.
\<close>

record world =
  files :: filesystem
  stdout :: "message list"

definition processFile :: "File \<Rightarrow> bool \<Rightarrow> world \<Rightarrow> string option \<times> world" where
  "processFile file dryRun w =
     (case
        (if IsDir file then (None, w)
         else case isFileValid file of
           Some err \<Rightarrow> (Some err, w)
         | None \<Rightarrow>
             (if dryRun
              then (None, w\<lparr>stdout := stdout w @ [WouldMove (Name file) (Category file)]\<rparr>)
              else
                (let destDir = filepath_Join [filepath_Dir (Path file), Category file] in
                 case os_MkdirAll destDir (files w) of
                   (Some err, fs1) \<Rightarrow>
                     (Some (''failed to create directory: '' @ err), w\<lparr>files := fs1\<rparr>)
                 | (None, fs1) \<Rightarrow>
                     (let destPath = filepath_Join [destDir, Name file] in
                      case os_Rename (Path file) destPath fs1 of
                        (Some err, fs2) \<Rightarrow>
                          (Some (''failed to move file: '' @ err), w\<lparr>files := fs2\<rparr>)
                      | (None, fs2) \<Rightarrow> (None, w\<lparr>files := fs2\<rparr>)))))
      of (result, w') \<Rightarrow> (result, w'\<lparr>stdout := stdout w' @ [Processed (Name file)]\<rparr>))"

section \<open>Concurrent orchestrator\<close>

text \<open>
  The part of \<open>main\<close> after the scan, as a transition system over the goroutines it
  starts. Each goroutine is at one of the statements of its body:
  \<^item> a task (the function literal of the \<open>for\<close> loop) is not yet started, inside
    \<open>processFile\<close>, at the send \<open>errorChan <- ...\<close>, at the deferred \<open>wg.Done()\<close>,
    or has returned;
  \<^item> the closing goroutine is not yet started, at \<open>wg.Wait()\<close>, at
    \<open>close(errorChan)\<close>, or has returned;
  \<^item> the main goroutine is in the \<open>for\<close> loop that starts the tasks (about to
    start task \<open>k\<close>, or the closing goroutine when no file is left), at the receive
    of \<open>range errorChan\<close>, at the \<open>Printf\<close> of the loop body, or past the loop.

  \<open>errorChan\<close> is made by \<open>make(chan error)\<close>, so it has no buffer: a send and a
  receive happen together, in one step, and a send on a closed channel panics. What
  \<open>processFile\<close> returns in task \<open>i\<close> is the parameter \<open>outcome i\<close>: the calls
  of the tasks interleave on the file system, and every schedule gives each task one
  result. \<open>Report name err\<close> stands for \<open>fmt.Errorf("file %q: %v", f.Name, err)\<close>.
\<close>

datatype report = Report string string

datatype task = NotStarted | Processing | Sending report | Returning | Finished

datatype closer = Unstarted | Waiting | Closing | Exited

datatype mainpc = Spawning nat | Receiving | Printing report | Complete

record orchestrator =
  tasks :: "task list"
  counter :: int
  closerPc :: closer
  closed :: bool
  mainPc :: mainpc
  printed :: "report list"
  panicked :: bool

definition initial :: "File list \<Rightarrow> orchestrator" where
  "initial fs =
     \<lparr>tasks = replicate (length fs) NotStarted, counter = 0, closerPc = Unstarted,
      closed = False, mainPc = Spawning 0, printed = [], panicked = False\<rparr>"

inductive step :: "File list \<Rightarrow> (nat \<Rightarrow> string option) \<Rightarrow> orchestrator \<Rightarrow> orchestrator \<Rightarrow> bool"
  for fs :: "File list" and outcome :: "nat \<Rightarrow> string option" where
  spawn_task:
    "mainPc s = Spawning k \<Longrightarrow> k < length fs \<Longrightarrow>
     step fs outcome s
       (s\<lparr>counter := counter s + 1, tasks := (tasks s)[k := Processing],
          mainPc := Spawning (Suc k)\<rparr>)"
| spawn_closer:
    "mainPc s = Spawning k \<Longrightarrow> \<not> k < length fs \<Longrightarrow>
     step fs outcome s (s\<lparr>closerPc := Waiting, mainPc := Receiving\<rparr>)"
| process_ok:
    "i < length (tasks s) \<Longrightarrow> tasks s ! i = Processing \<Longrightarrow> outcome i = None \<Longrightarrow>
     step fs outcome s (s\<lparr>tasks := (tasks s)[i := Returning]\<rparr>)"
| process_failed:
    "i < length (tasks s) \<Longrightarrow> tasks s ! i = Processing \<Longrightarrow> outcome i = Some err \<Longrightarrow>
     step fs outcome s
       (s\<lparr>tasks := (tasks s)[i := Sending (Report (Name (fs ! i)) err)]\<rparr>)"
| send_receive:
    "i < length (tasks s) \<Longrightarrow> tasks s ! i = Sending r \<Longrightarrow> mainPc s = Receiving \<Longrightarrow>
     \<not> closed s \<Longrightarrow>
     step fs outcome s (s\<lparr>tasks := (tasks s)[i := Returning], mainPc := Printing r\<rparr>)"
| send_on_closed:
    "i < length (tasks s) \<Longrightarrow> tasks s ! i = Sending r \<Longrightarrow> closed s \<Longrightarrow>
     step fs outcome s (s\<lparr>panicked := True\<rparr>)"
| wg_Done:
    "i < length (tasks s) \<Longrightarrow> tasks s ! i = Returning \<Longrightarrow>
     step fs outcome s (s\<lparr>tasks := (tasks s)[i := Finished], counter := counter s - 1\<rparr>)"
| wg_Wait:
    "closerPc s = Waiting \<Longrightarrow> counter s = 0 \<Longrightarrow>
     step fs outcome s (s\<lparr>closerPc := Closing\<rparr>)"
| close_chan:
    "closerPc s = Closing \<Longrightarrow>
     step fs outcome s (s\<lparr>closed := True, closerPc := Exited\<rparr>)"
| print_error:
    "mainPc s = Printing r \<Longrightarrow>
     step fs outcome s (s\<lparr>printed := printed s @ [r], mainPc := Receiving\<rparr>)"
| range_ends:
    "mainPc s = Receiving \<Longrightarrow> closed s \<Longrightarrow>
     step fs outcome s (s\<lparr>mainPc := Complete\<rparr>)"

inductive reachable :: "File list \<Rightarrow> (nat \<Rightarrow> string option) \<Rightarrow> orchestrator \<Rightarrow> bool"
  for fs :: "File list" and outcome :: "nat \<Rightarrow> string option" where
  reach_initial: "reachable fs outcome (initial fs)"
| reach_step: "reachable fs outcome s \<Longrightarrow> step fs outcome s s' \<Longrightarrow> reachable fs outcome s'"

text \<open>
  A task is blocked at the send when it has reached \<open>errorChan <- ...\<close> and the main
  goroutine is not at its receive: the send cannot happen in this state.
\<close>

definition blocked :: "orchestrator \<Rightarrow> nat \<Rightarrow> bool" where
  "blocked s i =
     (case tasks s ! i of
        Sending r \<Rightarrow> mainPc s \<noteq> Receiving
      | _ \<Rightarrow> False)"

fun active :: "task \<Rightarrow> bool" where
  "active NotStarted = False"
| "active Finished = False"
| "active t = True"

section \<open>Vocabulary of the properties\<close>

text \<open>A string is white space only when it is a sequence of white-space runes (or empty).\<close>

definition whitespaceOnly :: "string \<Rightarrow> bool" where
  "whitespaceOnly s = (\<exists>ws. set ws \<subseteq> set spaceRunes \<and> concat ws = s)"

text \<open>An entry is readable when its \<open>Info()\<close> returns the metadata.\<close>

definition readable :: "DirEntry \<Rightarrow> bool" where
  "readable entry = (case EntryInfo entry of Inl err \<Rightarrow> False | Inr info \<Rightarrow> True)"

definition skipWarning :: "DirEntry \<Rightarrow> message" where
  "skipWarning entry =
     Skipping (EntryName entry) (case EntryInfo entry of Inl err \<Rightarrow> err | Inr info \<Rightarrow> [])"

text \<open>Two strings differ when they have different bytes at a position both have.\<close>

fun differ :: "string \<Rightarrow> string \<Rightarrow> bool" where
  "differ (a # as) (b # bs) = (a \<noteq> b \<or> differ as bs)"
| "differ as bs = False"

text \<open>
  A plain name is what a directory entry is called: not empty, not \<open>.\<close> or \<open>..\<close>, and
  without a separator. \<open>inDir dir name\<close> is the path of the entry \<open>name\<close> of the
  directory with the cleaned path \<open>dir\<close>.
\<close>

definition plainName :: "string \<Rightarrow> bool" where
  "plainName n = (n \<noteq> [] \<and> n \<noteq> ''.'' \<and> n \<noteq> ''..'' \<and> CHR ''/'' \<notin> set n)"


text \<open>
  The shape of a cleaned list of elements: some \<open>..\<close> (none when the path is rooted)
  followed by plain names.
\<close>

definition cleanForm :: "bool \<Rightarrow> string list \<Rightarrow> bool" where
  "cleanForm rooted es =
     (\<exists>k names. es = replicate k ''..'' @ names \<and> list_all plainName names
                 \<and> (rooted \<longrightarrow> k = 0))"

text \<open>
  What holds in every state the orchestrator reaches: the wait-group counter is the
  number of tasks that were started and have not returned; the tasks are started in
  order, and the closing goroutine after the last of them; the closing goroutine gets
  past \<open>wg.Wait()\<close> only when every task has returned; the channel is closed by the
  closing goroutine only; the main loop ends only on a closed channel; and no send has
  met a closed channel.
\<close>

definition spawned :: "orchestrator \<Rightarrow> nat" where
  "spawned s = (case mainPc s of Spawning k \<Rightarrow> k | _ \<Rightarrow> length (tasks s))"

definition spawning :: "orchestrator \<Rightarrow> bool" where
  "spawning s = (case mainPc s of Spawning k \<Rightarrow> True | _ \<Rightarrow> False)"

definition invariant :: "File list \<Rightarrow> orchestrator \<Rightarrow> bool" where
  "invariant fs s =
     (length (tasks s) = length fs
      \<and> counter s = int (length (filter active (tasks s)))
      \<and> spawned s \<le> length fs
      \<and> (\<forall>i < length fs. (tasks s ! i = NotStarted) = (spawned s \<le> i))
      \<and> ((closerPc s = Unstarted) = spawning s)
      \<and> (closerPc s = Closing \<or> closerPc s = Exited
            \<longrightarrow> (\<forall>i < length fs. tasks s ! i = Finished))
      \<and> (closed s \<longrightarrow> closerPc s = Exited)
      \<and> (mainPc s = Complete \<longrightarrow> closed s)
      \<and> \<not> panicked s)"

section \<open>An example directory\<close>

text \<open>
  A directory \<open>in\<close> with five readable entries and one whose metadata cannot be read,
  a map that is visited in two different orders in turn, and the records \<open>scanDir\<close>
  returns for them. The theorems below are instantiated with these values.
\<close>

definition exampleReadDir :: "string \<Rightarrow> DirEntry list \<times> string option" where
  "exampleReadDir path =
     (if path = ''in''
      then ([\<lparr>EntryName = ''a.PDF'', EntryIsDir = False,
               EntryInfo = Inr \<lparr>InfoSize = 10, InfoModTime = 3\<rparr>\<rparr>,
             \<lparr>EntryName = ''b'', EntryIsDir = False,
               EntryInfo = Inl ''lstat in/b: permission denied''\<rparr>,
             \<lparr>EntryName = ''c.jpg'', EntryIsDir = True,
               EntryInfo = Inr \<lparr>InfoSize = 0, InfoModTime = 4\<rparr>\<rparr>,
             \<lparr>EntryName = ''A.pdf'', EntryIsDir = False,
               EntryInfo = Inr \<lparr>InfoSize = 20, InfoModTime = 5\<rparr>\<rparr>,
             \<lparr>EntryName = ''notes'', EntryIsDir = False,
               EntryInfo = Inr \<lparr>InfoSize = 30, InfoModTime = 6\<rparr>\<rparr>,
             \<lparr>EntryName = ''.md'', EntryIsDir = False,
               EntryInfo = Inr \<lparr>InfoSize = 40, InfoModTime = 7\<rparr>\<rparr>], None)
      else ([], Some (''open '' @ path @ '': no such file or directory'')))"

definition exampleVisits :: "nat \<Rightarrow> (string \<times> string list) list" where
  "exampleVisits i = (if even i then Categories else rev Categories)"

definition exampleFiles :: "File list" where
  "exampleFiles =
     [\<lparr>Name = ''a.PDF'', Path = ''in/a.PDF'', Size = 10, ModTime = 3, IsDir = False,
       Category = ''Docs'', Extension = ''.pdf''\<rparr>,
      \<lparr>Name = ''c.jpg'', Path = ''in/c.jpg'', Size = 0, ModTime = 4, IsDir = True,
       Category = ''Folder'', Extension = ''.jpg''\<rparr>,
      \<lparr>Name = ''A.pdf'', Path = ''in/A.pdf'', Size = 20, ModTime = 5, IsDir = False,
       Category = ''Docs'', Extension = ''.pdf''\<rparr>,
      \<lparr>Name = ''notes'', Path = ''in/notes'', Size = 30, ModTime = 6, IsDir = False,
       Category = ''Other'', Extension = []\<rparr>,
      \<lparr>Name = ''.md'', Path = ''in/.md'', Size = 40, ModTime = 7, IsDir = False,
       Category = ''Docs'', Extension = ''.md''\<rparr>]"


text \<open>
  Two empty files. Both fail the validation, so \<open>processFile\<close> returns the error of
  \<open>isFileValid\<close> for each of them, whatever the other task does. \<open>blockedState\<close> is
  the state after both tasks have come to the send and the main goroutine has received
  the error of the first and not yet printed it.
\<close>

definition emptyFiles :: "File list" where
  "emptyFiles =
     [\<lparr>Name = ''x.txt'', Path = ''in/x.txt'', Size = 0, ModTime = 1, IsDir = False,
       Category = ''Docs'', Extension = ''.txt''\<rparr>,
      \<lparr>Name = ''y.txt'', Path = ''in/y.txt'', Size = 0, ModTime = 2, IsDir = False,
       Category = ''Docs'', Extension = ''.txt''\<rparr>]"

definition emptyOutcome :: "nat \<Rightarrow> string option" where
  "emptyOutcome i = (if i < length emptyFiles then isFileValid (emptyFiles ! i) else None)"

definition blockedState :: orchestrator where
  "blockedState =
     \<lparr>tasks = [Returning, Sending (Report ''y.txt'' ''file size must be positive'')],
      counter = 2, closerPc = Waiting, closed = False,
      mainPc = Printing (Report ''x.txt'' ''file size must be positive''),
      printed = [], panicked = False\<rparr>"

section \<open>Properties of the classifier\<close>

lemma matchExts_set: "matchExts ext exts = (ext \<in> set exts)"
  by (induction exts) auto

lemma rangeCategories_None:
  "(rangeCategories ext visit = None) = (\<forall>p \<in> set visit. ext \<notin> set (snd p))"
proof (induction visit)
  case Nil
  show ?case by simp
next
  case (Cons p visit)
  obtain c exts where p: "p = (c, exts)" by (cases p)
  from Cons.IH p show ?case by (simp add: matchExts_set)
qed

lemma rangeCategories_Some_mem:
  "rangeCategories ext visit = Some c \<Longrightarrow> \<exists>exts. (c, exts) \<in> set visit \<and> ext \<in> set exts"
proof (induction visit)
  case Nil
  then show ?case by simp
next
  case (Cons p visit)
  obtain c' exts' where p: "p = (c', exts')" by (cases p)
  show ?case
  proof (cases "ext \<in> set exts'")
    case True
    with Cons.prems p have "c = c'" by (simp add: matchExts_set)
    with True p show ?thesis by auto
  next
    case False
    with Cons.prems p have "rangeCategories ext visit = Some c" by (simp add: matchExts_set)
    then obtain exts where "(c, exts) \<in> set visit" "ext \<in> set exts"
      using Cons.IH by blast
    then show ?thesis by auto
  qed
qed

lemma rangeCategories_owner:
  "distinct (concat (map snd visit)) \<Longrightarrow> (c, exts) \<in> set visit \<Longrightarrow> ext \<in> set exts
    \<Longrightarrow> rangeCategories ext visit = Some c"
proof (induction visit)
  case Nil
  then show ?case by simp
next
  case (Cons p visit)
  obtain c' exts' where p: "p = (c', exts')" by (cases p)
  from Cons.prems(1) p have d: "distinct (concat (map snd visit))"
    and disj: "set exts' \<inter> set (concat (map snd visit)) = {}" by simp_all
  show ?case
  proof (cases "(c, exts) \<in> set visit")
    case True
    with Cons.prems(3) have "ext \<in> set (concat (map snd visit))"
      by (auto intro: bexI [where x = "(c, exts)"])
    with disj have "ext \<notin> set exts'" by blast
    moreover have "rangeCategories ext visit = Some c"
      using Cons.IH d True Cons.prems(3) by blast
    ultimately show ?thesis using p by (simp add: matchExts_set)
  next
    case False
    with Cons.prems(2) p have "c = c'" "exts = exts'" by simp_all
    with Cons.prems(3) p show ?thesis by (simp add: matchExts_set)
  qed
qed

lemma Categories_distinct: "distinct (concat (map snd Categories))"
  by (simp add: Categories_def)

lemma mset_concat_cong: "mset xss = mset yss \<Longrightarrow> mset (concat xss) = mset (concat yss)"
proof -
  assume "mset xss = mset yss"
  then have "mset (map mset xss) = mset (map mset yss)" by (metis mset_map)
  then have "sum_list (map mset xss) = sum_list (map mset yss)"
    by (metis sum_mset_sum_list)
  then show ?thesis by (simp add: mset_concat)
qed

lemma rangeOrder_distinct: "rangeOrder visit \<Longrightarrow> distinct (concat (map snd visit))"
proof -
  assume "rangeOrder visit"
  then have "mset visit = mset Categories" by (simp add: rangeOrder_def)
  then have "mset (map snd visit) = mset (map snd Categories)"
    by (metis mset_map)
  then have "mset (concat (map snd visit)) = mset (concat (map snd Categories))"
    by (rule mset_concat_cong)
  then show ?thesis
    using Categories_distinct mset_eq_imp_distinct_iff by blast
qed

lemma rangeOrder_set: "rangeOrder visit \<Longrightarrow> set visit = set Categories"
  unfolding rangeOrder_def by (rule mset_eq_setD)

lemma rangeOrder_Categories: "rangeOrder Categories"
  by (simp add: rangeOrder_def)

lemma rangeOrder_rev: "rangeOrder (rev Categories)"
  by (simp add: rangeOrder_def)

lemma Categorize_Category:
  "Category (Categorize visit f) =
     (if IsDir f then ''Folder''
      else case rangeCategories (Extension f) visit of Some c \<Rightarrow> c | None \<Rightarrow> ''Other'')"
  by (simp add: Categorize_def split: option.split)

lemma rangeCategories_rangeOrder:
  assumes "rangeOrder visit"
  shows "rangeCategories ext visit = rangeCategories ext Categories"
proof (cases "rangeCategories ext visit")
  case None
  then have "\<forall>p \<in> set Categories. ext \<notin> set (snd p)"
    using rangeOrder_set [OF assms] by (simp add: rangeCategories_None)
  then have "rangeCategories ext Categories = None"
    by (simp add: rangeCategories_None)
  with None show ?thesis by simp
next
  case (Some c)
  then obtain exts where "(c, exts) \<in> set Categories" "ext \<in> set exts"
    using rangeCategories_Some_mem rangeOrder_set [OF assms] by blast
  then have "rangeCategories ext Categories = Some c"
    using rangeCategories_owner [OF Categories_distinct] by blast
  with Some show ?thesis by simp
qed

text \<open>
  C3. Whatever order the map is visited in, a record that is not a directory and whose
  extension is listed under a category of the table is given that category, and a record
  whose extension is listed nowhere in the table is given \<open>Other\<close>.
\<close>

theorem Categorize_owner_or_Other:
  assumes "rangeOrder visit" and "\<not> IsDir f"
  shows "((category, exts) \<in> set Categories \<and> Extension f \<in> set exts
            \<longrightarrow> Category (Categorize visit f) = category)
       \<and> ((\<forall>p \<in> set Categories. Extension f \<notin> set (snd p))
            \<longrightarrow> Category (Categorize visit f) = ''Other'')"
proof (intro conjI impI)
  assume "(category, exts) \<in> set Categories \<and> Extension f \<in> set exts"
  then have "rangeCategories (Extension f) Categories = Some category"
    using rangeCategories_owner [OF Categories_distinct] by blast
  then have "rangeCategories (Extension f) visit = Some category"
    by (simp add: rangeCategories_rangeOrder [OF assms(1)])
  with assms(2) show "Category (Categorize visit f) = category"
    by (simp add: Categorize_Category)
next
  assume "\<forall>p \<in> set Categories. Extension f \<notin> set (snd p)"
  then have "rangeCategories (Extension f) Categories = None"
    by (simp add: rangeCategories_None)
  then have "rangeCategories (Extension f) visit = None"
    by (simp add: rangeCategories_rangeOrder [OF assms(1)])
  with assms(2) show "Category (Categorize visit f) = ''Other''"
    by (simp add: Categorize_Category)
qed

theorem Categorize_owner_or_Other_witness:
  "rangeOrder (rev Categories)
   \<and> \<not> IsDir \<lparr>Name = ''report.PDF'', Path = ''in/report.PDF'', Size = 10, ModTime = 0,
               IsDir = False, Category = [], Extension = ''.pdf''\<rparr>
   \<and> (''Docs'', [''.pdf'', ''.docx'', ''.txt'', ''.md'']) \<in> set Categories
   \<and> Category (Categorize (rev Categories)
        \<lparr>Name = ''report.PDF'', Path = ''in/report.PDF'', Size = 10, ModTime = 0,
         IsDir = False, Category = [], Extension = ''.pdf''\<rparr>) = ''Docs''
   \<and> \<not> IsDir \<lparr>Name = ''data.xyz'', Path = ''in/data.xyz'', Size = 10, ModTime = 0,
               IsDir = False, Category = [], Extension = ''.xyz''\<rparr>
   \<and> ''.xyz'' \<notin> set (concat (map snd Categories))
   \<and> Category (Categorize (rev Categories)
        \<lparr>Name = ''data.xyz'', Path = ''in/data.xyz'', Size = 10, ModTime = 0,
         IsDir = False, Category = [], Extension = ''.xyz''\<rparr>) = ''Other''"
proof -
  have m: "(''Docs'', [''.pdf'', ''.docx'', ''.txt'', ''.md'']) \<in> set Categories"
    by (simp add: Categories_def)
  have n: "\<forall>p \<in> set Categories. ''.xyz'' \<notin> set (snd p)"
    by (simp add: Categories_def)
  show ?thesis
    using m n
      Categorize_owner_or_Other [OF rangeOrder_rev,
        of "\<lparr>Name = ''report.PDF'', Path = ''in/report.PDF'', Size = 10, ModTime = 0,
             IsDir = False, Category = [], Extension = ''.pdf''\<rparr>"
           "''Docs''" "[''.pdf'', ''.docx'', ''.txt'', ''.md'']"]
      Categorize_owner_or_Other [OF rangeOrder_rev,
        of "\<lparr>Name = ''data.xyz'', Path = ''in/data.xyz'', Size = 10, ModTime = 0,
             IsDir = False, Category = [], Extension = ''.xyz''\<rparr>"]
    by (simp add: rangeOrder_rev)
qed

text \<open>
  C8. In the table as shipped an extension listed under one category is listed under no
  other. So the category that \<open>Categorize\<close> assigns depends on the directory flag and
  the extension of the record alone: two runs on records that agree on both assign the
  same category, whichever orders the two loops visit the map in.
\<close>

theorem Categorize_deterministic:
  assumes "rangeOrder visit1" and "rangeOrder visit2"
    and "IsDir f = IsDir g" and "Extension f = Extension g"
  shows "(\<forall>c1 exts1 c2 exts2 ext.
            (c1, exts1) \<in> set Categories \<and> (c2, exts2) \<in> set Categories
            \<and> ext \<in> set exts1 \<and> ext \<in> set exts2 \<longrightarrow> c1 = c2)
       \<and> Category (Categorize visit1 f) = Category (Categorize visit2 g)"
proof
  show "\<forall>c1 exts1 c2 exts2 ext.
          (c1, exts1) \<in> set Categories \<and> (c2, exts2) \<in> set Categories
          \<and> ext \<in> set exts1 \<and> ext \<in> set exts2 \<longrightarrow> c1 = c2"
  proof (intro allI impI)
    fix c1 exts1 c2 exts2 ext
    assume a: "(c1, exts1) \<in> set Categories \<and> (c2, exts2) \<in> set Categories
               \<and> ext \<in> set exts1 \<and> ext \<in> set exts2"
    then have "rangeCategories ext Categories = Some c1"
      using rangeCategories_owner [OF Categories_distinct] by blast
    moreover from a have "rangeCategories ext Categories = Some c2"
      using rangeCategories_owner [OF Categories_distinct] by blast
    ultimately show "c1 = c2" by simp
  qed
next
  have "rangeCategories (Extension f) visit1 = rangeCategories (Extension g) visit2"
    using assms(4) rangeCategories_rangeOrder [OF assms(1)]
      rangeCategories_rangeOrder [OF assms(2)] by simp
  with assms(3) show "Category (Categorize visit1 f) = Category (Categorize visit2 g)"
    by (simp add: Categorize_Category)
qed

theorem Categorize_deterministic_witness:
  "rangeOrder Categories \<and> rangeOrder (rev Categories)
   \<and> Category (Categorize Categories
        \<lparr>Name = ''a.mkv'', Path = ''in/a.mkv'', Size = 10, ModTime = 0,
         IsDir = False, Category = [], Extension = ''.mkv''\<rparr>)
     = Category (Categorize (rev Categories)
        \<lparr>Name = ''b.mkv'', Path = ''in/b.mkv'', Size = 99, ModTime = 5,
         IsDir = False, Category = ''x'', Extension = ''.mkv''\<rparr>)"
  using Categorize_deterministic [OF rangeOrder_Categories rangeOrder_rev,
      of "\<lparr>Name = ''a.mkv'', Path = ''in/a.mkv'', Size = 10, ModTime = 0,
           IsDir = False, Category = [], Extension = ''.mkv''\<rparr>"
         "\<lparr>Name = ''b.mkv'', Path = ''in/b.mkv'', Size = 99, ModTime = 5,
           IsDir = False, Category = ''x'', Extension = ''.mkv''\<rparr>"]
  by (simp add: rangeOrder_Categories rangeOrder_rev)

section \<open>Properties of the path functions\<close>

lemma splitSep_not_Nil [simp]: "splitSep s \<noteq> []"
  by (induction s) (auto split: list.split)




lemma joinSep_Cons: "es \<noteq> [] \<Longrightarrow> joinSep (e # es) = e @ CHR ''/'' # joinSep es"
  by (cases es) auto


lemma plainName_simps:
  "plainName n \<Longrightarrow> n \<noteq> []" "plainName n \<Longrightarrow> n \<noteq> ''.''" "plainName n \<Longrightarrow> n \<noteq> ''..''"
  "plainName n \<Longrightarrow> CHR ''/'' \<notin> set n"
  by (simp_all add: plainName_def)






lemma cleanForm_Nil: "cleanForm r []"
  unfolding cleanForm_def by (rule exI [of _ 0], rule exI [of _ "[]"]) simp

lemma cleanForm_snoc_plain:
  assumes "cleanForm r xs" and "plainName e"
  shows "cleanForm r (xs @ [e])"
proof -
  from assms(1) obtain k names where "xs = replicate k ''..'' @ names"
    "list_all plainName names" "r \<longrightarrow> k = 0"
    unfolding cleanForm_def by blast
  with assms(2) have "xs @ [e] = replicate k ''..'' @ (names @ [e])
      \<and> list_all plainName (names @ [e]) \<and> (r \<longrightarrow> k = 0)" by simp
  then show ?thesis unfolding cleanForm_def by blast
qed

lemma cleanForm_butlast:
  assumes "cleanForm r xs" and "xs \<noteq> []" and "last xs \<noteq> ''..''"
  shows "cleanForm r (butlast xs)"
proof -
  from assms(1) obtain k names where xs: "xs = replicate k ''..'' @ names"
    and p: "list_all plainName names" and r: "r \<longrightarrow> k = 0"
    unfolding cleanForm_def by blast
  have "names \<noteq> []"
  proof
    assume "names = []"
    with xs assms(2) have "xs = replicate k ''..''" "k \<noteq> 0" by auto
    then have "last xs = ''..''" by (cases k) auto
    with assms(3) show False by simp
  qed
  with xs have "butlast xs = replicate k ''..'' @ butlast names"
    by (simp add: butlast_append)
  moreover from p have "list_all plainName (butlast names)"
    unfolding list_all_iff by (auto dest: in_set_butlastD)
  ultimately show ?thesis using r unfolding cleanForm_def by blast
qed

lemma cleanForm_snoc_dotdot:
  assumes "cleanForm r xs" and "\<not> r" and "xs = [] \<or> last xs = ''..''"
  shows "cleanForm r (xs @ [''..''])"
proof -
  from assms(1) obtain k names where xs: "xs = replicate k ''..'' @ names"
    and p: "list_all plainName names"
    unfolding cleanForm_def by blast
  have "names = []"
  proof (rule ccontr)
    assume n: "names \<noteq> []"
    with xs have "last xs = last names" by simp
    moreover from n p have "plainName (last names)"
      unfolding list_all_iff using last_in_set by blast
    ultimately have "last xs \<noteq> ''..''" by (simp add: plainName_def)
    with assms(3) xs n show False by auto
  qed
  with xs have "xs @ [''..''] = replicate (Suc k) ''..'' @ []"
    by (simp add: replicate_append_same)
  then show ?thesis using assms(2) unfolding cleanForm_def
    by (intro exI [of _ "Suc k"] exI [of _ "[]"]) simp
qed

lemma cleanElems_form:
  "\<forall>e \<in> set es. CHR ''/'' \<notin> set e \<Longrightarrow> cleanForm r (rev out)
    \<Longrightarrow> cleanForm r (cleanElems r es out)"
proof (induction es arbitrary: out)
  case Nil
  then show ?case by simp
next
  case (Cons e es)
  from Cons.prems(1) have rest: "\<forall>e \<in> set es. CHR ''/'' \<notin> set e" by simp
  consider (skip) "e = [] \<or> e = ''.''"
    | (pop) "e = ''..''" "out \<noteq> [] \<and> hd out \<noteq> ''..''"
    | (push) "e = ''..''" "\<not> (out \<noteq> [] \<and> hd out \<noteq> ''..'')" "\<not> r"
    | (root) "e = ''..''" "\<not> (out \<noteq> [] \<and> hd out \<noteq> ''..'')" "r"
    | (name) "e \<noteq> []" "e \<noteq> ''.''" "e \<noteq> ''..''"
    by blast
  then show ?case
  proof cases
    case skip
    then have "cleanElems r (e # es) out = cleanElems r es out" by auto
    with Cons.IH [OF rest Cons.prems(2)] show ?thesis by simp
  next
    case pop
    then have "cleanForm r (butlast (rev out))"
      using cleanForm_butlast [OF Cons.prems(2)] by (simp add: last_rev)
    then have "cleanForm r (rev (tl out))" by (simp add: butlast_rev)
    from Cons.IH [OF rest this] pop show ?thesis by simp
  next
    case push
    then have "rev out = [] \<or> last (rev out) = ''..''" by (auto simp: last_rev)
    from cleanForm_snoc_dotdot [OF Cons.prems(2) push(3) this]
    have "cleanForm r (rev (''..'' # out))" by simp
    from Cons.IH [OF rest this] push show ?thesis by auto
  next
    case root
    with Cons.IH [OF rest Cons.prems(2)] show ?thesis by auto
  next
    case name
    with Cons.prems(1) have "plainName e" by (simp add: plainName_def)
    from cleanForm_snoc_plain [OF Cons.prems(2) this]
    have "cleanForm r (rev (e # out))" by simp
    from Cons.IH [OF rest this] name show ?thesis by simp
  qed
qed

lemma splitSep_no_sep: "e \<in> set (splitSep s) \<Longrightarrow> CHR ''/'' \<notin> set e"
proof (induction s arbitrary: e)
  case Nil
  then show ?case by simp
next
  case (Cons c s)
  show ?case
  proof (cases "IsPathSeparator c")
    case True
    with Cons show ?thesis by auto
  next
    case False
    obtain x xs where s: "splitSep s = x # xs" by (cases "splitSep s") auto
    with False Cons.prems have "e = c # x \<or> e \<in> set xs" by auto
    with Cons.IH s False show ?thesis by (auto simp: IsPathSeparator_def)
  qed
qed

lemma cleanForm_elem:
  assumes "cleanForm r es" and "e \<in> set es"
  shows "e \<noteq> []" and "e \<noteq> ''.''" and "CHR ''/'' \<notin> set e"
proof -
  from assms(1) obtain k names where "es = replicate k ''..'' @ names"
    "list_all plainName names"
    unfolding cleanForm_def by blast
  with assms(2) have "e = ''..'' \<or> plainName e" by (auto simp: list_all_iff)
  then show "e \<noteq> []" and "e \<noteq> ''.''" and "CHR ''/'' \<notin> set e"
    by (auto simp: plainName_def)
qed

lemma joinSep_hd:
  "es \<noteq> [] \<Longrightarrow> hd es \<noteq> [] \<Longrightarrow> joinSep es \<noteq> [] \<and> hd (joinSep es) = hd (hd es)"
  by (induction es rule: joinSep.induct) auto

lemma filepath_Clean_form:
  "cleanForm (isRooted x) (cleanElems (isRooted x) (splitSep x) [])"
  by (rule cleanElems_form) (auto simp: splitSep_no_sep cleanForm_Nil)



lemma filepath_Clean_not_Nil: "filepath_Clean x \<noteq> []"
proof -
  let ?es = "cleanElems (isRooted x) (splitSep x) []"
  show ?thesis
  proof (cases "?es = []")
    case True
    then show ?thesis by (simp add: filepath_Clean_def renderPath_def)
  next
    case False
    then have "hd ?es \<in> set ?es" by simp
    from cleanForm_elem(1) [OF filepath_Clean_form this] joinSep_hd [OF False]
    show ?thesis by (simp add: filepath_Clean_def renderPath_def)
  qed
qed
















section \<open>Properties of the file system calls\<close>







section \<open>Properties of the validator\<close>

lemma stripOne_Some_split: "stripOne rs s = Some rest \<Longrightarrow> \<exists>r \<in> set rs. s = r @ rest"
proof (induction rs)
  case Nil
  then show ?case by simp
next
  case (Cons r rs)
  show ?case
  proof (cases "r \<noteq> [] \<and> take (length r) s = r")
    case True
    with Cons.prems have "rest = drop (length r) s" by simp
    with True have "s = r @ rest" by (metis append_take_drop_id)
    then show ?thesis by simp
  next
    case False
    with Cons show ?thesis by auto
  qed
qed

lemma trimRunes_decomp: "\<exists>ws. set ws \<subseteq> set rs \<and> s = concat ws @ trimRunes rs s"
proof (induction rs s rule: trimRunes.induct)
  case (1 rs s)
  show ?case
  proof (cases "stripOne rs s")
    case None
    then have "trimRunes rs s = s" by (simp add: trimRunes.simps)
    then have "set [] \<subseteq> set rs \<and> s = concat [] @ trimRunes rs s" by simp
    then show ?thesis by blast
  next
    case (Some rest)
    then obtain r where r: "r \<in> set rs" "s = r @ rest"
      using stripOne_Some_split by blast
    from 1 Some obtain ws where ws: "set ws \<subseteq> set rs" "rest = concat ws @ trimRunes rs rest"
      by blast
    from Some have "trimRunes rs s = trimRunes rs rest" by (simp add: trimRunes.simps)
    with r ws have "set (r # ws) \<subseteq> set rs \<and> s = concat (r # ws) @ trimRunes rs s" by simp
    then show ?thesis by blast
  qed
qed

lemma trimRunes_Nil: "trimRunes rs [] = []"
proof -
  have "stripOne rs [] = None" by (induction rs) auto
  then show ?thesis by (simp add: trimRunes.simps)
qed

lemma trimRunes_concat:
  assumes free: "\<And>r x. r \<in> set rs \<Longrightarrow> stripOne rs (r @ x) = Some x"
  shows "set ws \<subseteq> set rs \<Longrightarrow> trimRunes rs (concat ws @ t) = trimRunes rs t"
proof (induction ws)
  case Nil
  then show ?case by simp
next
  case (Cons w ws)
  then have "stripOne rs (w @ (concat ws @ t)) = Some (concat ws @ t)"
    using free by simp
  then have "trimRunes rs (concat (w # ws) @ t) = trimRunes rs (concat ws @ t)"
    by (simp add: trimRunes.simps)
  with Cons show ?case by simp
qed

lemma differ_no_prefix: "differ r' r \<Longrightarrow> take (length r') (r @ x) \<noteq> r'"
  by (induction r' r rule: differ.induct) auto

lemma stripOne_hit:
  "r \<in> set rs \<Longrightarrow> r \<noteq> [] \<Longrightarrow> \<forall>r' \<in> set rs. r' = r \<or> differ r' r
    \<Longrightarrow> stripOne rs (r @ x) = Some x"
proof (induction rs)
  case Nil
  then show ?case by simp
next
  case (Cons a rs)
  show ?case
  proof (cases "a = r")
    case True
    with Cons.prems(2) show ?thesis by simp
  next
    case False
    with Cons.prems have "differ a r" and "r \<in> set rs" by auto
    then have "take (length a) (r @ x) \<noteq> a" by (simp only: differ_no_prefix not_False_eq_True)
    moreover have "stripOne rs (r @ x) = Some x" using Cons \<open>r \<in> set rs\<close> by simp
    ultimately show ?thesis by (simp del: take_append)
  qed
qed

lemma spaceRunes_differ:
  "list_all (\<lambda>r. r \<noteq> [] \<and> list_all (\<lambda>r'. r' = r \<or> differ r' r) spaceRunes) spaceRunes"
  by code_simp

lemma spaceRunes_prefix_free:
  "r \<in> set spaceRunes \<Longrightarrow> stripOne spaceRunes (r @ x) = Some x"
  using spaceRunes_differ by (intro stripOne_hit) (auto simp: list_all_iff)

lemma TrimSpace_empty_iff: "(strings_TrimSpace s = []) = whitespaceOnly s"
proof
  assume e: "strings_TrimSpace s = []"
  obtain ws where ws: "set ws \<subseteq> set spaceRunes" "s = concat ws @ TrimLeftSpace s"
    using trimRunes_decomp [of spaceRunes s] by (auto simp: TrimLeftSpace_def)
  obtain vs where vs: "set vs \<subseteq> set (map rev spaceRunes)"
      "rev (TrimLeftSpace s)
        = concat vs @ trimRunes (map rev spaceRunes) (rev (TrimLeftSpace s))"
    using trimRunes_decomp [of "map rev spaceRunes" "rev (TrimLeftSpace s)"] by blast
  from e have "trimRunes (map rev spaceRunes) (rev (TrimLeftSpace s)) = []"
    by (simp add: strings_TrimSpace_def TrimRightSpace_def)
  with vs(2) have "rev (TrimLeftSpace s) = concat vs" by simp
  then have "TrimLeftSpace s = rev (concat vs)" by (metis rev_rev_ident)
  then have t: "TrimLeftSpace s = concat (map rev (rev vs))" by (simp add: rev_concat)
  from vs(1) have "set (map rev (rev vs)) \<subseteq> set spaceRunes" by auto
  with ws t have "set (ws @ map rev (rev vs)) \<subseteq> set spaceRunes
      \<and> concat (ws @ map rev (rev vs)) = s" by simp
  then show "whitespaceOnly s" unfolding whitespaceOnly_def by blast
next
  assume "whitespaceOnly s"
  then obtain ws where ws: "set ws \<subseteq> set spaceRunes" "concat ws = s"
    unfolding whitespaceOnly_def by blast
  have "trimRunes spaceRunes (concat ws @ []) = trimRunes spaceRunes []"
    using trimRunes_concat [of spaceRunes ws "[]"] spaceRunes_prefix_free ws(1) by blast
  with ws(2) have "TrimLeftSpace s = []" by (simp add: TrimLeftSpace_def trimRunes_Nil)
  then show "strings_TrimSpace s = []"
    by (simp add: strings_TrimSpace_def TrimRightSpace_def trimRunes_Nil)
qed

lemma isFileValid_None_iff:
  "(isFileValid f = None) = (IsDir f \<or> (\<not> whitespaceOnly (Name f) \<and> \<not> sint (Size f) \<le> 0))"
  by (simp add: isFileValid_def TrimSpace_empty_iff word_sle_eq)

lemma processFile_invalid:
  "\<not> IsDir f \<Longrightarrow> isFileValid f = Some err
    \<Longrightarrow> processFile f dryRun w = (Some err, w\<lparr>stdout := stdout w @ [Processed (Name f)]\<rparr>)"
  by (simp add: processFile_def)

text \<open>
  C4. \<open>isFileValid\<close> returns an error exactly for a record that is not a directory and
  whose name is empty or white space only or whose size is at most zero; a directory
  always passes. In \<open>processFile\<close> the check comes before \<open>os.MkdirAll\<close> and
  \<open>os.Rename\<close>: when it fails, \<open>processFile\<close> returns its error and the file system
  is the one it was called with.
\<close>

theorem isFileValid_rejects_iff:
  "(isFileValid f \<noteq> None) = (\<not> IsDir f \<and> (whitespaceOnly (Name f) \<or> sint (Size f) \<le> 0))
   \<and> (IsDir f \<longrightarrow> isFileValid f = None)
   \<and> (\<not> IsDir f \<and> isFileValid f \<noteq> None \<longrightarrow>
        fst (processFile f dryRun w) = isFileValid f
        \<and> files (snd (processFile f dryRun w)) = files w)"
proof (intro conjI impI)
  show "(isFileValid f \<noteq> None) = (\<not> IsDir f \<and> (whitespaceOnly (Name f) \<or> sint (Size f) \<le> 0))"
    using isFileValid_None_iff [of f] by auto
  show "IsDir f \<Longrightarrow> isFileValid f = None" by (simp add: isFileValid_def)
next
  assume a: "\<not> IsDir f \<and> isFileValid f \<noteq> None"
  then obtain err where "isFileValid f = Some err" by auto
  with a have p: "processFile f dryRun w
      = (Some err, w\<lparr>stdout := stdout w @ [Processed (Name f)]\<rparr>)"
    by (simp add: processFile_invalid)
  from p \<open>isFileValid f = Some err\<close> show "fst (processFile f dryRun w) = isFileValid f" by simp
  from p show "files (snd (processFile f dryRun w)) = files w" by simp
qed

theorem isFileValid_rejects_iff_witness:
  "\<not> IsDir \<lparr>Name = '' '', Path = ''in/ '', Size = 10, ModTime = 0, IsDir = False,
             Category = ''Other'', Extension = []\<rparr>
   \<and> isFileValid \<lparr>Name = '' '', Path = ''in/ '', Size = 10, ModTime = 0, IsDir = False,
                   Category = ''Other'', Extension = []\<rparr> \<noteq> None
   \<and> fst (processFile \<lparr>Name = '' '', Path = ''in/ '', Size = 10, ModTime = 0, IsDir = False,
                         Category = ''Other'', Extension = []\<rparr> False
             \<lparr>files = [''in'' \<mapsto> Directory, ''in/ '' \<mapsto> Regular 1], stdout = []\<rparr>)
       = isFileValid \<lparr>Name = '' '', Path = ''in/ '', Size = 10, ModTime = 0, IsDir = False,
                       Category = ''Other'', Extension = []\<rparr>
   \<and> files (snd (processFile \<lparr>Name = '' '', Path = ''in/ '', Size = 10, ModTime = 0,
                                IsDir = False, Category = ''Other'', Extension = []\<rparr> False
                    \<lparr>files = [''in'' \<mapsto> Directory, ''in/ '' \<mapsto> Regular 1], stdout = []\<rparr>))
       = [''in'' \<mapsto> Directory, ''in/ '' \<mapsto> Regular 1]"
proof -
  have "set [[CHR 0x20]] \<subseteq> set spaceRunes \<and> concat [[CHR 0x20]] = '' ''"
    by (simp add: spaceRunes_def)
  then have ws: "whitespaceOnly '' ''" unfolding whitespaceOnly_def by blast
  show ?thesis
    using ws isFileValid_rejects_iff
      [of "\<lparr>Name = '' '', Path = ''in/ '', Size = 10, ModTime = 0, IsDir = False,
            Category = ''Other'', Extension = []\<rparr>" False
          "\<lparr>files = [''in'' \<mapsto> Directory, ''in/ '' \<mapsto> Regular 1], stdout = []\<rparr>"]
    by simp
qed

section \<open>Properties of the directory scanner\<close>

lemma Categorize_fields [simp]:
  "Name (Categorize visit f) = Name f"
  "IsDir (Categorize visit f) = IsDir f"
  "Extension (Categorize visit f) = Extension f"
  "Path (Categorize visit f) = Path f"
  "Size (Categorize visit f) = Size f"
  by (simp_all add: Categorize_def split: option.split)

lemma newFile_fields [simp]:
  "Name (newFile u d e info) = EntryName e"
  "IsDir (newFile u d e info) = EntryIsDir e"
  "Extension (newFile u d e info) = strings_ToLower u (filepath_Ext (EntryName e))"
  "Path (newFile u d e info) = filepath_Join [d, EntryName e]"
  "Size (newFile u d e info) = InfoSize info"
  by (simp_all add: newFile_def)

lemma scanEntries_out:
  "snd (scanEntries u v d i es (fs, out))
     = out @ map skipWarning (filter (\<lambda>e. \<not> readable e) es)"
proof (induction es arbitrary: i fs out)
  case Nil
  show ?case by simp
next
  case (Cons e es)
  show ?case
  proof (cases "EntryInfo e")
    case (Inl err)
    then show ?thesis by (simp add: Cons.IH readable_def skipWarning_def)
  next
    case (Inr info)
    then show ?thesis by (simp add: Cons.IH readable_def)
  qed
qed

lemma scanEntries_names:
  "map Name (fst (scanEntries u v d i es (fs, out)))
     = map Name fs @ map EntryName (filter readable es)"
proof (induction es arbitrary: i fs out)
  case Nil
  show ?case by simp
next
  case (Cons e es)
  show ?case
  proof (cases "EntryInfo e")
    case (Inl err)
    then show ?thesis by (simp add: Cons.IH readable_def)
  next
    case (Inr info)
    then show ?thesis by (simp add: Cons.IH readable_def)
  qed
qed

lemma scanEntries_mem:
  "f \<in> set (fst (scanEntries u v d i es (fs, out))) \<Longrightarrow>
     f \<in> set fs
     \<or> (\<exists>e info k. e \<in> set es \<and> EntryInfo e = Inr info
           \<and> f = Categorize (v k) (newFile u d e info))"
proof (induction es arbitrary: i fs out)
  case Nil
  then show ?case by simp
next
  case (Cons e es)
  show ?case
  proof (cases "EntryInfo e")
    case (Inl err)
    with Cons.prems have "f \<in> set (fst (scanEntries u v d (Suc i) es
        (fs, out @ [Skipping (EntryName e) err])))" by simp
    from Cons.IH [OF this] show ?thesis by auto
  next
    case (Inr info)
    with Cons.prems have "f \<in> set (fst (scanEntries u v d (Suc i) es
        (fs @ [Categorize (v i) (newFile u d e info)], out)))" by simp
    from Cons.IH [OF this] Inr show ?thesis by auto
  qed
qed

lemma scanDir_Inr:
  "scanDir u v rd d = (Inr fs, out) \<Longrightarrow>
     \<exists>es. rd d = (es, None) \<and> fs = fst (scanEntries u v d 0 es ([], []))
          \<and> out = snd (scanEntries u v d 0 es ([], []))"
  by (auto simp: scanDir_def split: prod.splits option.splits)

lemma scanDir_mem:
  assumes "scanDir u v rd d = (Inr fs, out)" and "f \<in> set fs"
  shows "\<exists>e info k. EntryInfo e = Inr info \<and> f = Categorize (v k) (newFile u d e info)"
proof -
  from scanDir_Inr [OF assms(1)] obtain es
    where "fs = fst (scanEntries u v d 0 es ([], []))" by blast
  with assms(2) have "f \<in> set (fst (scanEntries u v d 0 es ([], [])))" by simp
  from scanEntries_mem [OF this] show ?thesis by auto
qed

text \<open>
  C5. When \<open>os.ReadDir\<close> returns the entries without an error, \<open>scanDir\<close> returns
  one record for each entry whose metadata can be read, in order and under the entry's
  name, and prints one \<open>Skipping\<close> line for each entry whose metadata cannot be read:
  with \<open>N\<close> readable and \<open>M\<close> unreadable entries among the \<open>N + M\<close>, that is
  \<open>N\<close> records and \<open>M\<close> warnings. When \<open>os.ReadDir\<close> returns an error,
  \<open>scanDir\<close> returns the error \<open>failed to read directory: ...\<close> and no records,
  whatever entries came with the error.
\<close>

theorem scanDir_records_and_warnings:
  "(os_ReadDir dirPath = (entries, None) \<longrightarrow>
      (\<exists>fs out. scanDir u v os_ReadDir dirPath = (Inr fs, out)
         \<and> length fs = length (filter readable entries)
         \<and> length out = length (filter (\<lambda>e. \<not> readable e) entries)
         \<and> length fs + length out = length entries
         \<and> map Name fs = map EntryName (filter readable entries)
         \<and> out = map skipWarning (filter (\<lambda>e. \<not> readable e) entries)))
   \<and> (os_ReadDir dirPath = (entries, Some err) \<longrightarrow>
        scanDir u v os_ReadDir dirPath = (Inl (''failed to read directory: '' @ err), []))"
proof (intro conjI impI)
  assume rd: "os_ReadDir dirPath = (entries, None)"
  define r where "r = scanEntries u v dirPath 0 entries ([], [])"
  have s: "scanDir u v os_ReadDir dirPath = (Inr (fst r), snd r)"
    by (simp add: scanDir_def rd r_def split: prod.split)
  have n: "map Name (fst r) = map EntryName (filter readable entries)"
    unfolding r_def by (simp add: scanEntries_names)
  have o: "snd r = map skipWarning (filter (\<lambda>e. \<not> readable e) entries)"
    unfolding r_def by (simp add: scanEntries_out)
  from n have l: "length (fst r) = length (filter readable entries)"
    by (metis length_map)
  from o have m: "length (snd r) = length (filter (\<lambda>e. \<not> readable e) entries)"
    by simp
  from l m have t: "length (fst r) + length (snd r) = length entries"
    by (simp add: sum_length_filter_compl)
  from s n o l m t
  show "\<exists>fs out. scanDir u v os_ReadDir dirPath = (Inr fs, out)
         \<and> length fs = length (filter readable entries)
         \<and> length out = length (filter (\<lambda>e. \<not> readable e) entries)
         \<and> length fs + length out = length entries
         \<and> map Name fs = map EntryName (filter readable entries)
         \<and> out = map skipWarning (filter (\<lambda>e. \<not> readable e) entries)"
    by blast
next
  assume "os_ReadDir dirPath = (entries, Some err)"
  then show "scanDir u v os_ReadDir dirPath = (Inl (''failed to read directory: '' @ err), [])"
    by (simp add: scanDir_def)
qed

theorem scanDir_records_and_warnings_witness:
  "(\<exists>fs out. scanDir id exampleVisits exampleReadDir ''in'' = (Inr fs, out)
      \<and> length fs = 5 \<and> length out = 1
      \<and> map Name fs = [''a.PDF'', ''c.jpg'', ''A.pdf'', ''notes'', ''.md'']
      \<and> out = [Skipping ''b'' ''lstat in/b: permission denied''])
   \<and> scanDir id exampleVisits exampleReadDir ''gone''
      = (Inl ''failed to read directory: open gone: no such file or directory'', [])"
  using
    scanDir_records_and_warnings
      [of exampleReadDir "''in''" "fst (exampleReadDir ''in'')" id exampleVisits "[]"]
    scanDir_records_and_warnings
      [of exampleReadDir "''gone''" "[]" id exampleVisits
          "''open gone: no such file or directory''"]
  by (simp add: exampleReadDir_def readable_def skipWarning_def eval_nat_numeral)

lemma lowerASCII_not_sep: "IsPathSeparator (lowerASCII c) = IsPathSeparator c"
proof (cases "isUpperASCII c")
  case True
  then have "of_char (lowerASCII c) = ((of_char c + 32) mod 256 :: nat)"
    by (simp add: lowerASCII_def)
  with True have "of_char (lowerASCII c) \<noteq> (47::nat)" "of_char c \<noteq> (47::nat)"
    by (auto simp: isUpperASCII_def)
  then have "lowerASCII c \<noteq> CHR ''/''" "c \<noteq> CHR ''/''" by auto
  then show ?thesis by (simp add: IsPathSeparator_def)
next
  case False
  then show ?thesis by (simp add: lowerASCII_def)
qed

lemma lowerASCII_not_dot: "(lowerASCII c = CHR ''.'') = (c = CHR ''.'')"
proof (cases "isUpperASCII c")
  case True
  then have "of_char (lowerASCII c) = ((of_char c + 32) mod 256 :: nat)"
    by (simp add: lowerASCII_def)
  with True have "of_char (lowerASCII c) \<noteq> (46::nat)" "of_char c \<noteq> (46::nat)"
    by (auto simp: isUpperASCII_def)
  then have "lowerASCII c \<noteq> CHR ''.''" "c \<noteq> CHR ''.''" by auto
  then show ?thesis by simp
next
  case False
  then show ?thesis by (simp add: lowerASCII_def)
qed

lemma extScan_lowerASCII:
  "extScan (map lowerASCII xs) (map lowerASCII acc) = map lowerASCII (extScan xs acc)"
proof (induction xs arbitrary: acc)
  case Nil
  show ?case by simp
next
  case (Cons c xs)
  from Cons.IH [of "c # acc"] show ?case
    by (simp add: lowerASCII_not_sep lowerASCII_not_dot)
qed

lemma filepath_Ext_lowerASCII:
  "filepath_Ext (map lowerASCII n) = map lowerASCII (filepath_Ext n)"
  using extScan_lowerASCII [of "rev n" "[]"] by (simp add: filepath_Ext_def rev_map)

lemma extScan_subset: "set (extScan xs acc) \<subseteq> set xs \<union> set acc"
proof (induction xs arbitrary: acc)
  case Nil
  show ?case by simp
next
  case (Cons c xs)
  from Cons.IH [of "c # acc"] show ?case by auto
qed

lemma filepath_Ext_subset: "set (filepath_Ext n) \<subseteq> set n"
  using extScan_subset [of "rev n" "[]"] by (simp add: filepath_Ext_def)

lemma strings_ToLower_ASCII: "list_all isASCII s \<Longrightarrow> strings_ToLower u s = map lowerASCII s"
proof -
  assume a: "list_all isASCII s"
  have "\<not> list_ex isUpperASCII s \<Longrightarrow> map lowerASCII s = s"
    by (induction s) (auto simp: lowerASCII_def)
  with a show ?thesis by (auto simp: strings_ToLower_def)
qed

lemma scanDir_record:
  assumes "\<And>i. rangeOrder (v i)" and "scanDir u v rd d = (Inr fs, out)" and "f \<in> set fs"
  shows "Category f =
           (if IsDir f then ''Folder''
            else case rangeCategories (Extension f) Categories of
                   Some c \<Rightarrow> c | None \<Rightarrow> ''Other'')"
    and "Extension f = strings_ToLower u (filepath_Ext (Name f))"
proof -
  from scanDir_mem [OF assms(2,3)] obtain e info k
    where f: "f = Categorize (v k) (newFile u d e info)" by blast
  show "Category f =
           (if IsDir f then ''Folder''
            else case rangeCategories (Extension f) Categories of
                   Some c \<Rightarrow> c | None \<Rightarrow> ''Other'')"
    unfolding f by (simp add: Categorize_Category rangeCategories_rangeOrder [OF assms(1)])
  show "Extension f = strings_ToLower u (filepath_Ext (Name f))"
    unfolding f by simp
qed

lemma category_names_not_blank:
  "list_all (\<lambda>c. strings_TrimSpace c \<noteq> []) (''Folder'' # ''Other'' # map fst Categories)"
  by code_simp

text \<open>
  C6. Every record of a successful scan has a category that is not blank: \<open>Folder\<close>
  when the record is a directory, whatever its name, and otherwise a category of the
  table or \<open>Other\<close>. Its extension is \<open>strings.ToLower\<close> of \<open>filepath.Ext\<close> of
  its name. So two files whose extensions are equal once lower-cased are given the same
  category, and in particular two files whose ASCII names differ only in the case of
  their letters.
\<close>

theorem scanDir_category_set_extension_lowered:
  assumes "\<And>i. rangeOrder (v i)" and "scanDir u v rd d = (Inr fs, out)" and "f \<in> set fs"
  shows "strings_TrimSpace (Category f) \<noteq> []
       \<and> (IsDir f \<longrightarrow> Category f = ''Folder'')
       \<and> (\<not> IsDir f \<longrightarrow> Category f \<in> fst ` set Categories \<union> {''Other''})
       \<and> Extension f = strings_ToLower u (filepath_Ext (Name f))
       \<and> (\<forall>g \<in> set fs. \<not> IsDir f \<and> \<not> IsDir g
             \<and> list_all isASCII (Name f) \<and> list_all isASCII (Name g)
             \<and> map lowerASCII (Name f) = map lowerASCII (Name g)
             \<longrightarrow> Category g = Category f)
       \<and> (\<forall>g \<in> set fs. \<not> IsDir f \<and> \<not> IsDir g
             \<and> strings_ToLower u (filepath_Ext (Name g))
                 = strings_ToLower u (filepath_Ext (Name f))
             \<longrightarrow> Category g = Category f)"
proof -
  note rec = scanDir_record [OF assms(1,2)]
  have lo: "\<forall>g \<in> set fs. \<not> IsDir f \<and> \<not> IsDir g
             \<and> strings_ToLower u (filepath_Ext (Name g))
                 = strings_ToLower u (filepath_Ext (Name f))
             \<longrightarrow> Category g = Category f"
  proof (intro ballI impI)
    fix g
    assume g: "g \<in> set fs"
    assume h: "\<not> IsDir f \<and> \<not> IsDir g
             \<and> strings_ToLower u (filepath_Ext (Name g))
                 = strings_ToLower u (filepath_Ext (Name f))"
    then have "Extension g = Extension f" using rec(2) [OF g] rec(2) [OF assms(3)] by simp
    with h rec(1) [OF assms(3)] rec(1) [OF g] show "Category g = Category f" by simp
  qed
  have dir: "IsDir f \<longrightarrow> Category f = ''Folder''"
    using rec(1) [OF assms(3)] by simp
  have tab: "\<not> IsDir f \<longrightarrow> Category f \<in> fst ` set Categories \<union> {''Other''}"
  proof
    assume nd: "\<not> IsDir f"
    show "Category f \<in> fst ` set Categories \<union> {''Other''}"
    proof (cases "rangeCategories (Extension f) Categories")
      case None
      with nd rec(1) [OF assms(3)] show ?thesis by simp
    next
      case (Some c)
      then obtain exts where "(c, exts) \<in> set Categories"
        using rangeCategories_Some_mem by blast
      then have "c \<in> fst ` set Categories" by force
      with Some nd rec(1) [OF assms(3)] show ?thesis by simp
    qed
  qed
  from dir tab have "Category f \<in> set (''Folder'' # ''Other'' # map fst Categories)"
    by auto
  with category_names_not_blank have blank: "strings_TrimSpace (Category f) \<noteq> []"
    unfolding list_all_iff by blast
  have ci: "\<forall>g \<in> set fs. \<not> IsDir f \<and> \<not> IsDir g
             \<and> list_all isASCII (Name f) \<and> list_all isASCII (Name g)
             \<and> map lowerASCII (Name f) = map lowerASCII (Name g)
             \<longrightarrow> Category g = Category f"
  proof (intro ballI impI)
    fix g
    assume g: "g \<in> set fs"
    assume h: "\<not> IsDir f \<and> \<not> IsDir g
             \<and> list_all isASCII (Name f) \<and> list_all isASCII (Name g)
             \<and> map lowerASCII (Name f) = map lowerASCII (Name g)"
    have af: "list_all isASCII (filepath_Ext (Name f))"
      using h filepath_Ext_subset [of "Name f"] unfolding list_all_iff by blast
    have ag: "list_all isASCII (filepath_Ext (Name g))"
      using h filepath_Ext_subset [of "Name g"] unfolding list_all_iff by blast
    have "Extension f = map lowerASCII (filepath_Ext (Name f))"
      using rec(2) [OF assms(3)] strings_ToLower_ASCII [OF af] by simp
    also have "\<dots> = filepath_Ext (map lowerASCII (Name g))"
      using h by (simp add: filepath_Ext_lowerASCII [symmetric])
    also have "\<dots> = Extension g"
      using rec(2) [OF g] strings_ToLower_ASCII [OF ag] by (simp add: filepath_Ext_lowerASCII)
    finally have "Extension f = Extension g" .
    with h rec(1) [OF assms(3)] rec(1) [OF g] show "Category g = Category f" by simp
  qed
  from blank dir tab rec(2) [OF assms(3)] ci lo show ?thesis by blast
qed

lemma exampleVisits_rangeOrder: "rangeOrder (exampleVisits i)"
  by (simp add: exampleVisits_def rangeOrder_def)

lemma exampleScan:
  "scanDir id exampleVisits exampleReadDir ''in''
     = (Inr exampleFiles,
        [Skipping ''b'' ''lstat in/b: permission denied''])"
  by code_simp

theorem scanDir_category_set_extension_lowered_witness:
  "rangeOrder (exampleVisits 0) \<and> rangeOrder (exampleVisits 1)
   \<and> scanDir id exampleVisits exampleReadDir ''in''
       = (Inr exampleFiles, [Skipping ''b'' ''lstat in/b: permission denied''])
   \<and> exampleFiles ! 0 \<in> set exampleFiles
   \<and> exampleFiles ! 1 \<in> set exampleFiles
   \<and> exampleFiles ! 2 \<in> set exampleFiles
   \<and> Name (exampleFiles ! 0) = ''a.PDF'' \<and> Name (exampleFiles ! 2) = ''A.pdf''
   \<and> map lowerASCII (Name (exampleFiles ! 0)) = map lowerASCII (Name (exampleFiles ! 2))
   \<and> strings_TrimSpace (Category (exampleFiles ! 0)) \<noteq> []
   \<and> Category (exampleFiles ! 0) \<in> fst ` set Categories \<union> {''Other''}
   \<and> Extension (exampleFiles ! 0)
       = strings_ToLower id (filepath_Ext (Name (exampleFiles ! 0)))
   \<and> Category (exampleFiles ! 2) = Category (exampleFiles ! 0)
   \<and> IsDir (exampleFiles ! 1) \<and> Name (exampleFiles ! 1) = ''c.jpg''
   \<and> Category (exampleFiles ! 1) = ''Folder''"
proof -
  have m: "exampleFiles ! 0 \<in> set exampleFiles" "exampleFiles ! 1 \<in> set exampleFiles"
    "exampleFiles ! 2 \<in> set exampleFiles"
    by (simp_all add: exampleFiles_def)
  have n: "Name (exampleFiles ! 0) = ''a.PDF''" "Name (exampleFiles ! 2) = ''A.pdf''"
    "Name (exampleFiles ! 1) = ''c.jpg''" "IsDir (exampleFiles ! 1)"
    "\<not> IsDir (exampleFiles ! 0)" "\<not> IsDir (exampleFiles ! 2)"
    by (simp_all add: exampleFiles_def)
  have l: "map lowerASCII ''a.PDF'' = map lowerASCII ''A.pdf''"
    "list_all isASCII ''a.PDF''" "list_all isASCII ''A.pdf''"
    by code_simp+
  from scanDir_category_set_extension_lowered
         [OF exampleVisits_rangeOrder exampleScan m(1)] m(3) n l
  have a: "strings_TrimSpace (Category (exampleFiles ! 0)) \<noteq> []"
    "Category (exampleFiles ! 0) \<in> fst ` set Categories \<union> {''Other''}"
    "Extension (exampleFiles ! 0)
       = strings_ToLower id (filepath_Ext (Name (exampleFiles ! 0)))"
    "Category (exampleFiles ! 2) = Category (exampleFiles ! 0)"
    by simp_all
  from scanDir_category_set_extension_lowered
         [OF exampleVisits_rangeOrder exampleScan m(2)] n
  have b: "Category (exampleFiles ! 1) = ''Folder''" by simp
  from m n l a b exampleScan exampleVisits_rangeOrder show ?thesis by simp
qed

lemma extScan_no_dot: "CHR ''.'' \<notin> set xs \<Longrightarrow> extScan xs acc = []"
  by (induction xs arbitrary: acc) auto

lemma extScan_skip:
  "CHR ''.'' \<notin> set xs \<Longrightarrow> CHR ''/'' \<notin> set xs \<Longrightarrow> extScan (xs @ ys) acc = extScan ys (rev xs @ acc)"
  by (induction xs arbitrary: acc) (auto simp: IsPathSeparator_def)

lemma filepath_Ext_no_dot: "CHR ''.'' \<notin> set n \<Longrightarrow> filepath_Ext n = []"
  by (simp add: filepath_Ext_def extScan_no_dot)

lemma filepath_Ext_dotfile:
  "CHR ''.'' \<notin> set rest \<Longrightarrow> CHR ''/'' \<notin> set rest \<Longrightarrow> filepath_Ext (CHR ''.'' # rest) = CHR ''.'' # rest"
  using extScan_skip [of "rev rest" "[CHR ''.'']" "[]"]
  by (simp add: filepath_Ext_def IsPathSeparator_def)

text \<open>
  C10. In a successful scan, a record whose name has no dot has the empty extension and,
  unless it is a directory, the category \<open>Other\<close>. A record whose name starts with its
  only dot (and, as every name of a directory entry, has no separator) has its whole
  lower-cased name as extension; so the files named \<open>.md\<close> and \<open>.pdf\<close> are put
  in \<open>Docs\<close>.
\<close>

theorem scanDir_no_dot_and_dotfile:
  assumes "\<And>i. rangeOrder (v i)" and "scanDir u v rd d = (Inr fs, out)" and "f \<in> set fs"
  shows "(CHR ''.'' \<notin> set (Name f) \<longrightarrow>
            Extension f = [] \<and> (\<not> IsDir f \<longrightarrow> Category f = ''Other''))
       \<and> (Name f = CHR ''.'' # rest \<and> CHR ''.'' \<notin> set rest \<and> CHR ''/'' \<notin> set rest \<longrightarrow>
            Extension f = strings_ToLower u (Name f))
       \<and> (\<not> IsDir f \<and> (Name f = ''.md'' \<or> Name f = ''.pdf'') \<longrightarrow>
            Extension f = Name f \<and> Category f = ''Docs'')"
proof (intro conjI impI)
  note rec = scanDir_record [OF assms]
  {
    assume nd: "CHR ''.'' \<notin> set (Name f)"
    then show e: "Extension f = []"
      using rec(2) by (simp add: filepath_Ext_no_dot strings_ToLower_def)
    assume "\<not> IsDir f"
    moreover have "rangeCategories [] Categories = None" by (simp add: Categories_def)
    ultimately show "Category f = ''Other''" using rec(1) e by simp
  }
  {
    assume "Name f = CHR ''.'' # rest \<and> CHR ''.'' \<notin> set rest \<and> CHR ''/'' \<notin> set rest"
    then show "Extension f = strings_ToLower u (Name f)"
      using rec(2) by (simp add: filepath_Ext_dotfile)
  }
  {
    assume a: "\<not> IsDir f \<and> (Name f = ''.md'' \<or> Name f = ''.pdf'')"
    have l: "strings_ToLower u ''.md'' = ''.md''" "strings_ToLower u ''.pdf'' = ''.pdf''"
      by (simp_all add: strings_ToLower_def isASCII_def isUpperASCII_def)
    have x: "filepath_Ext ''.md'' = ''.md''" "filepath_Ext ''.pdf'' = ''.pdf''"
      by (simp_all add: filepath_Ext_def IsPathSeparator_def)
    from a l x rec(2) show e: "Extension f = Name f" by auto
    have "rangeCategories ''.md'' Categories = Some ''Docs''"
      "rangeCategories ''.pdf'' Categories = Some ''Docs''"
      by (simp_all add: Categories_def)
    with a e rec(1) show "Category f = ''Docs''" by auto
  }
qed

theorem scanDir_no_dot_and_dotfile_witness:
  "rangeOrder (exampleVisits 0) \<and> rangeOrder (exampleVisits 1)
   \<and> scanDir id exampleVisits exampleReadDir ''in''
       = (Inr exampleFiles, [Skipping ''b'' ''lstat in/b: permission denied''])
   \<and> exampleFiles ! 3 \<in> set exampleFiles
   \<and> exampleFiles ! 4 \<in> set exampleFiles
   \<and> Name (exampleFiles ! 3) = ''notes'' \<and> \<not> IsDir (exampleFiles ! 3)
   \<and> Extension (exampleFiles ! 3) = []
   \<and> Category (exampleFiles ! 3) = ''Other''
   \<and> Name (exampleFiles ! 4) = ''.md'' \<and> \<not> IsDir (exampleFiles ! 4)
   \<and> Extension (exampleFiles ! 4) = strings_ToLower id (Name (exampleFiles ! 4))
   \<and> Extension (exampleFiles ! 4) = ''.md''
   \<and> Category (exampleFiles ! 4) = ''Docs''"
proof -
  have m: "exampleFiles ! 3 \<in> set exampleFiles" "exampleFiles ! 4 \<in> set exampleFiles"
    by (simp_all add: exampleFiles_def)
  have n: "Name (exampleFiles ! 3) = ''notes''" "\<not> IsDir (exampleFiles ! 3)"
    "Name (exampleFiles ! 4) = ''.md''" "\<not> IsDir (exampleFiles ! 4)"
    by (simp_all add: exampleFiles_def)
  from scanDir_no_dot_and_dotfile
         [OF exampleVisits_rangeOrder exampleScan m(1), of "[]"] n
  have a: "Extension (exampleFiles ! 3) = []" "Category (exampleFiles ! 3) = ''Other''"
    by simp_all
  from scanDir_no_dot_and_dotfile
         [OF exampleVisits_rangeOrder exampleScan m(2), of "''md''"] n
  have b: "Extension (exampleFiles ! 4) = strings_ToLower id (Name (exampleFiles ! 4))"
    "Extension (exampleFiles ! 4) = ''.md''" "Category (exampleFiles ! 4) = ''Docs''"
    by auto
  from m n a b exampleScan exampleVisits_rangeOrder show ?thesis by simp
qed


text \<open>
  The records of a scan are the ones the theorem on the apply mode speaks of: for an
  entry with a plain name, the record has this name, a plain category, and the path
  \<open>filepath.Join(dirPath, name)\<close>.
\<close>

lemma category_names_plain:
  "list_all plainName (''Folder'' # ''Other'' # map fst Categories)"
  by (simp add: Categories_def plainName_def)

lemma scanDir_category_names:
  assumes "\<And>i. rangeOrder (v i)" and "scanDir u v rd d = (Inr fs, out)" and "f \<in> set fs"
  shows "Category f \<in> set (''Folder'' # ''Other'' # map fst Categories)"
proof (cases "IsDir f")
  case True
  with scanDir_record(1) [OF assms] show ?thesis by simp
next
  case False
  show ?thesis
  proof (cases "rangeCategories (Extension f) Categories")
    case None
    with False scanDir_record(1) [OF assms] show ?thesis by simp
  next
    case (Some c)
    then obtain exts where "(c, exts) \<in> set Categories"
      using rangeCategories_Some_mem by blast
    then have "c \<in> fst ` set Categories" by force
    with Some False scanDir_record(1) [OF assms] show ?thesis by simp
  qed
qed

lemma scanDir_record_wellformed:
  assumes "\<And>i. rangeOrder (v i)" and "scanDir u v rd d = (Inr fs, out)" and "f \<in> set fs"
    and "\<forall>e \<in> set (fst (rd d)). plainName (EntryName e)"
  shows "plainName (Name f) \<and> plainName (Category f)
       \<and> Path f = filepath_Join [d, Name f]"
proof -
  from scanDir_Inr [OF assms(2)] obtain es
    where es: "rd d = (es, None)" "fs = fst (scanEntries u v d 0 es ([], []))" by blast
  with assms(3) have "f \<in> set (fst (scanEntries u v d 0 es ([], [])))" by simp
  from scanEntries_mem [OF this] obtain e info k
    where e: "e \<in> set es" and f: "f = Categorize (v k) (newFile u d e info)" by auto
  from e es(1) assms(4) have n: "plainName (Name f)" by (simp add: f)
  have p: "Path f = filepath_Join [d, Name f]" by (simp add: f)
  have "Category f \<in> set (''Folder'' # ''Other'' # map fst Categories)"
    by (rule scanDir_category_names [OF assms(1,2,3)])
  with category_names_plain have "plainName (Category f)"
    unfolding list_all_iff by blast
  with n p show ?thesis by simp
qed

section \<open>Properties of the file processor\<close>

text \<open>
  C7. For a record whose directory flag is set, \<open>processFile\<close> returns \<open>nil\<close> and
  leaves the file system as it was, in preview and in apply mode, whatever the name and
  the size of the record: the validation is never reached. All it does is print the
  deferred \<open>Processed\<close> line.
\<close>

theorem processFile_directory_noop:
  "IsDir f \<Longrightarrow>
     fst (processFile f dryRun w) = None
     \<and> files (snd (processFile f dryRun w)) = files w
     \<and> stdout (snd (processFile f dryRun w)) = stdout w @ [Processed (Name f)]"
  by (simp add: processFile_def)

theorem processFile_directory_noop_witness:
  "IsDir \<lparr>Name = [], Path = ''in/sub'', Size = 0, ModTime = 0, IsDir = True,
           Category = ''Folder'', Extension = []\<rparr>
   \<and> isFileValid \<lparr>Name = [], Path = ''in/sub'', Size = 0, ModTime = 0, IsDir = False,
                   Category = ''Folder'', Extension = []\<rparr> \<noteq> None
   \<and> fst (processFile \<lparr>Name = [], Path = ''in/sub'', Size = 0, ModTime = 0, IsDir = True,
                         Category = ''Folder'', Extension = []\<rparr> False
             \<lparr>files = [''in'' \<mapsto> Directory, ''in/sub'' \<mapsto> Directory], stdout = []\<rparr>) = None
   \<and> files (snd (processFile \<lparr>Name = [], Path = ''in/sub'', Size = 0, ModTime = 0,
                                IsDir = True, Category = ''Folder'', Extension = []\<rparr> False
                    \<lparr>files = [''in'' \<mapsto> Directory, ''in/sub'' \<mapsto> Directory], stdout = []\<rparr>))
       = [''in'' \<mapsto> Directory, ''in/sub'' \<mapsto> Directory]
   \<and> fst (processFile \<lparr>Name = [], Path = ''in/sub'', Size = 0, ModTime = 0, IsDir = True,
                         Category = ''Folder'', Extension = []\<rparr> True
             \<lparr>files = [''in'' \<mapsto> Directory, ''in/sub'' \<mapsto> Directory], stdout = []\<rparr>) = None"
proof -
  have "strings_TrimSpace [] = []"
    by (simp add: strings_TrimSpace_def TrimRightSpace_def TrimLeftSpace_def trimRunes_Nil)
  then have v: "isFileValid \<lparr>Name = [], Path = ''in/sub'', Size = 0, ModTime = 0,
      IsDir = False, Category = ''Folder'', Extension = []\<rparr> \<noteq> None"
    by (simp add: isFileValid_def)
  show ?thesis
    using v
      processFile_directory_noop
        [of "\<lparr>Name = [], Path = ''in/sub'', Size = 0, ModTime = 0, IsDir = True,
              Category = ''Folder'', Extension = []\<rparr>" False
            "\<lparr>files = [''in'' \<mapsto> Directory, ''in/sub'' \<mapsto> Directory], stdout = []\<rparr>"]
      processFile_directory_noop
        [of "\<lparr>Name = [], Path = ''in/sub'', Size = 0, ModTime = 0, IsDir = True,
              Category = ''Folder'', Extension = []\<rparr>" True
            "\<lparr>files = [''in'' \<mapsto> Directory, ''in/sub'' \<mapsto> Directory], stdout = []\<rparr>"]
    by simp
qed

text \<open>
  C2. In preview mode \<open>processFile\<close> returns with the file system it was called with,
  for every record: no directory is created and nothing is moved.
\<close>

theorem processFile_preview_no_mutation:
  "files (snd (processFile f True w)) = files w"
  by (simp add: processFile_def split: option.split)



text \<open>
  The condition on the destination directory cannot be dropped. A file without an
  extension that is called \<open>Other\<close> is classified \<open>Other\<close>, so its destination
  directory is its own path: \<open>os.MkdirAll\<close> finds a regular file there and fails,
  \<open>processFile\<close> returns that failure and the file stays where it is.
\<close>

lemma processFile_destination_is_file:
  "fst (processFile
          \<lparr>Name = ''Other'', Path = ''in/Other'', Size = 5, ModTime = 0, IsDir = False,
           Category = ''Other'', Extension = []\<rparr> False
          \<lparr>files = [''in'' \<mapsto> Directory, ''in/Other'' \<mapsto> Regular 3], stdout = []\<rparr>)
     = Some ''failed to create directory: mkdir in/Other: not a directory''
   \<and> files (snd (processFile
          \<lparr>Name = ''Other'', Path = ''in/Other'', Size = 5, ModTime = 0, IsDir = False,
           Category = ''Other'', Extension = []\<rparr> False
          \<lparr>files = [''in'' \<mapsto> Directory, ''in/Other'' \<mapsto> Regular 3], stdout = []\<rparr>))
        ''in/Other'' = Some (Regular 3)"
  by code_simp

section \<open>Properties of the orchestrator\<close>

lemma filter_update_count:
  "i < length xs \<Longrightarrow>
     int (length (filter P (xs[i := x])))
       = int (length (filter P xs)) - (if P (xs ! i) then 1 else 0) + (if P x then 1 else 0)"
proof (induction xs arbitrary: i)
  case Nil
  then show ?case by simp
next
  case (Cons a xs)
  show ?case
  proof (cases i)
    case 0
    then show ?thesis by simp
  next
    case (Suc j)
    with Cons.prems have "j < length xs" by simp
    from Cons.IH [OF this] Suc show ?thesis by (auto split: if_splits)
  qed
qed

lemma no_active_all_Finished:
  assumes "length (filter active ts) = 0" and "i < length ts" and "ts ! i \<noteq> NotStarted"
  shows "ts ! i = Finished"
proof -
  from assms(1) have "\<forall>t \<in> set ts. \<not> active t" by (simp add: filter_empty_conv)
  with assms(2) have "\<not> active (ts ! i)" by simp
  with assms(3) show ?thesis by (cases "ts ! i") auto
qed

lemma invariant_initial: "invariant fs (initial fs)"
  by (simp add: invariant_def initial_def spawned_def spawning_def)

lemma invariant_step:
  assumes "invariant fs s" and "step fs outcome s s'"
  shows "invariant fs s'"
  using assms(2)
proof cases
  case (spawn_task k)
  from assms(1) spawn_task(2,3) have "tasks s ! k = NotStarted"
    by (simp add: invariant_def spawned_def)
  with assms(1) spawn_task show ?thesis
    by (auto simp: invariant_def spawned_def spawning_def filter_update_count
        nth_list_update less_Suc_eq_le)
next
  case (spawn_closer k)
  with assms(1) show ?thesis
    by (auto simp: invariant_def spawned_def spawning_def split: mainpc.splits)
next
  case (process_ok i)
  with assms(1) show ?thesis
    by (auto simp: invariant_def spawned_def spawning_def filter_update_count
        nth_list_update split: mainpc.splits)
next
  case (process_failed i err)
  with assms(1) show ?thesis
    by (auto simp: invariant_def spawned_def spawning_def filter_update_count
        nth_list_update split: mainpc.splits)
next
  case (send_receive i r)
  with assms(1) show ?thesis
    by (auto simp: invariant_def spawned_def spawning_def filter_update_count
        nth_list_update split: mainpc.splits)
next
  case (send_on_closed i r)
  with assms(1) have "tasks s ! i = Finished"
    by (simp add: invariant_def)
  with send_on_closed show ?thesis by simp
next
  case (wg_Done i)
  with assms(1) show ?thesis
    by (auto simp: invariant_def spawned_def spawning_def filter_update_count
        nth_list_update split: mainpc.splits)
next
  case wg_Wait
  from assms(1) wg_Wait have z: "length (filter active (tasks s)) = 0"
    and l: "length (tasks s) = length fs"
    and ns: "\<forall>i < length fs. tasks s ! i \<noteq> NotStarted"
    by (auto simp: invariant_def spawned_def spawning_def split: mainpc.splits)
  have "\<forall>i < length fs. tasks s ! i = Finished"
    using no_active_all_Finished [OF z] l ns by simp
  with assms(1) wg_Wait show ?thesis
    by (auto simp: invariant_def spawned_def spawning_def split: mainpc.splits)
next
  case close_chan
  with assms(1) show ?thesis
    by (auto simp: invariant_def spawned_def spawning_def split: mainpc.splits)
next
  case (print_error r)
  with assms(1) show ?thesis
    by (auto simp: invariant_def spawned_def spawning_def split: mainpc.splits)
next
  case range_ends
  with assms(1) show ?thesis
    by (auto simp: invariant_def spawned_def spawning_def split: mainpc.splits)
qed

lemma reachable_invariant: "reachable fs outcome s \<Longrightarrow> invariant fs s"
  by (induction rule: reachable.induct) (auto intro: invariant_initial invariant_step)

lemma main_finishes_spawning:
  "mainPc s = Spawning k \<Longrightarrow> length (tasks s) = length fs \<Longrightarrow>
     \<exists>s'. (step fs outcome)\<^sup>*\<^sup>* s s' \<and> mainPc s' = Receiving \<and> closed s' = closed s
          \<and> (\<forall>j < k. tasks s' ! j = tasks s ! j)"
proof (induction "length fs - k" arbitrary: s k)
  case 0
  then have "\<not> k < length fs" by simp
  from step.spawn_closer [OF "0.prems"(1) this]
  have "step fs outcome s (s\<lparr>closerPc := Waiting, mainPc := Receiving\<rparr>)" .
  then have "(step fs outcome)\<^sup>*\<^sup>* s (s\<lparr>closerPc := Waiting, mainPc := Receiving\<rparr>)" by blast
  moreover have "mainPc (s\<lparr>closerPc := Waiting, mainPc := Receiving\<rparr>) = Receiving"
    "closed (s\<lparr>closerPc := Waiting, mainPc := Receiving\<rparr>) = closed s"
    "\<forall>j < k. tasks (s\<lparr>closerPc := Waiting, mainPc := Receiving\<rparr>) ! j = tasks s ! j"
    by simp_all
  ultimately show ?case by blast
next
  case (Suc n)
  then have k: "k < length fs" by simp
  define s1 where "s1 = s\<lparr>counter := counter s + 1, tasks := (tasks s)[k := Processing],
      mainPc := Spawning (Suc k)\<rparr>"
  have st: "step fs outcome s s1"
    unfolding s1_def by (rule step.spawn_task [OF Suc.prems(1) k])
  have "n = length fs - Suc k" using Suc.hyps(2) by simp
  moreover have "mainPc s1 = Spawning (Suc k)" "length (tasks s1) = length fs"
    using Suc.prems(2) by (simp_all add: s1_def)
  ultimately obtain s' where s': "(step fs outcome)\<^sup>*\<^sup>* s1 s'" "mainPc s' = Receiving"
    "closed s' = closed s1" "\<forall>j < Suc k. tasks s' ! j = tasks s1 ! j"
    using Suc.hyps(1) by blast
  from st s'(1) have "(step fs outcome)\<^sup>*\<^sup>* s s'" by simp
  moreover from s'(3) have "closed s' = closed s" by (simp add: s1_def)
  moreover from s'(4) have "\<forall>j < k. tasks s' ! j = tasks s ! j" by (simp add: s1_def)
  ultimately show ?case using s'(2) by blast
qed

lemma main_reaches_receive:
  assumes "invariant fs s" and "i < length fs" and "tasks s ! i = Sending r"
  shows "\<not> closed s"
    and "\<exists>s'. (step fs outcome)\<^sup>*\<^sup>* s s' \<and> mainPc s' = Receiving \<and> \<not> closed s'
           \<and> tasks s' ! i = Sending r \<and> length (tasks s') = length fs"
proof -
  from assms have nf: "tasks s ! i \<noteq> Finished" by simp
  with assms(1,2) have c: "closerPc s \<noteq> Closing" "closerPc s \<noteq> Exited"
    by (auto simp: invariant_def)
  with assms(1) show nc: "\<not> closed s" by (auto simp: invariant_def)
  from assms(1) nc have m: "mainPc s \<noteq> Complete" by (auto simp: invariant_def)
  from assms(1) have l: "length (tasks s) = length fs" by (simp add: invariant_def)
  show "\<exists>s'. (step fs outcome)\<^sup>*\<^sup>* s s' \<and> mainPc s' = Receiving \<and> \<not> closed s'
           \<and> tasks s' ! i = Sending r \<and> length (tasks s') = length fs"
  proof (cases "mainPc s")
    case (Spawning k)
    with assms have "i < k" by (auto simp: invariant_def spawned_def)
    moreover from main_finishes_spawning [OF Spawning l, of outcome] obtain s'
      where s': "(step fs outcome)\<^sup>*\<^sup>* s s'" "mainPc s' = Receiving" "closed s' = closed s"
        "\<forall>j < k. tasks s' ! j = tasks s ! j" by blast
    moreover have "invariant fs s'" using s'(1) assms(1)
      by (induction rule: rtranclp_induct) (auto intro: invariant_step)
    then have "length (tasks s') = length fs" by (simp add: invariant_def)
    ultimately show ?thesis using nc assms(3) by auto
  next
    case Receiving
    with nc assms(3) l show ?thesis by blast
  next
    case (Printing r0)
    let ?s1 = "s\<lparr>printed := printed s @ [r0], mainPc := Receiving\<rparr>"
    from step.print_error [OF Printing] have "(step fs outcome)\<^sup>*\<^sup>* s ?s1" by blast
    moreover have "mainPc ?s1 = Receiving \<and> \<not> closed ?s1 \<and> tasks ?s1 ! i = Sending r
        \<and> length (tasks ?s1) = length fs"
      using nc assms(3) l by simp
    ultimately show ?thesis by blast
  next
    case Complete
    with m show ?thesis by simp
  qed
qed

text \<open>
  C9, as it holds. In every reachable state no send has met a closed channel; the
  closing goroutine is past \<open>wg.Wait()\<close>, and so the channel is closed, only when
  every task has returned. A task at the send finds the channel open, and the main
  goroutine can come to its receive and take the value, after which the task goes on
  to \<open>wg.Done()\<close>: the send waits for the receiver, but it is never stuck.
\<close>

theorem close_after_all_tasks_no_send_after_close:
  assumes "reachable fs outcome s"
  shows "\<not> panicked s
       \<and> (closerPc s = Closing \<or> closerPc s = Exited \<longrightarrow>
            (\<forall>i < length fs. tasks s ! i = Finished))
       \<and> (closed s \<longrightarrow> closerPc s = Exited \<and> (\<forall>i < length fs. tasks s ! i = Finished))
       \<and> (\<forall>i r. i < length fs \<and> tasks s ! i = Sending r \<longrightarrow>
            \<not> closed s
            \<and> (\<exists>s' s''. (step fs outcome)\<^sup>*\<^sup>* s s' \<and> step fs outcome s' s''
                  \<and> tasks s' ! i = Sending r \<and> tasks s'' ! i = Returning
                  \<and> mainPc s'' = Printing r))"
proof -
  note inv = reachable_invariant [OF assms]
  have a: "\<not> panicked s" using inv by (simp add: invariant_def)
  have b: "closerPc s = Closing \<or> closerPc s = Exited \<longrightarrow>
            (\<forall>i < length fs. tasks s ! i = Finished)"
    using inv by (simp add: invariant_def)
  have c: "closed s \<longrightarrow> closerPc s = Exited \<and> (\<forall>i < length fs. tasks s ! i = Finished)"
    using inv by (simp add: invariant_def)
  have d: "\<forall>i r. i < length fs \<and> tasks s ! i = Sending r \<longrightarrow>
            \<not> closed s
            \<and> (\<exists>s' s''. (step fs outcome)\<^sup>*\<^sup>* s s' \<and> step fs outcome s' s''
                  \<and> tasks s' ! i = Sending r \<and> tasks s'' ! i = Returning
                  \<and> mainPc s'' = Printing r)"
  proof (intro allI impI)
    fix i r
    assume h: "i < length fs \<and> tasks s ! i = Sending r"
    then have i: "i < length fs" and t: "tasks s ! i = Sending r" by simp_all
    from main_reaches_receive(2) [OF inv i t, of outcome] obtain s'
      where s': "(step fs outcome)\<^sup>*\<^sup>* s s'" "mainPc s' = Receiving" "\<not> closed s'"
        "tasks s' ! i = Sending r" "length (tasks s') = length fs" by blast
    let ?s'' = "s'\<lparr>tasks := (tasks s')[i := Returning], mainPc := Printing r\<rparr>"
    from i s'(5) have il: "i < length (tasks s')" by simp
    from step.send_receive [OF il s'(4) s'(2) s'(3)]
    have "step fs outcome s' ?s''" .
    moreover from il have "tasks ?s'' ! i = Returning" "mainPc ?s'' = Printing r" by simp_all
    ultimately have "\<exists>s' s''. (step fs outcome)\<^sup>*\<^sup>* s s' \<and> step fs outcome s' s''
                  \<and> tasks s' ! i = Sending r \<and> tasks s'' ! i = Returning
                  \<and> mainPc s'' = Printing r"
      using s'(1,4) by blast
    with main_reaches_receive(1) [OF inv i t]
    show "\<not> closed s
            \<and> (\<exists>s' s''. (step fs outcome)\<^sup>*\<^sup>* s s' \<and> step fs outcome s' s''
                  \<and> tasks s' ! i = Sending r \<and> tasks s'' ! i = Returning
                  \<and> mainPc s'' = Printing r)" by blast
  qed
  from a b c d show ?thesis by blast
qed

lemma emptyOutcome_values:
  "emptyOutcome 0 = Some ''file size must be positive''"
  "emptyOutcome (Suc 0) = Some ''file size must be positive''"
  by code_simp+

lemma blockedState_reachable: "reachable emptyFiles emptyOutcome blockedState"
proof -
  let ?e = "''file size must be positive''"
  let ?s0 = "\<lparr>tasks = [NotStarted, NotStarted], counter = 0, closerPc = Unstarted,
      closed = False, mainPc = Spawning 0, printed = [], panicked = False\<rparr>"
  let ?s1 = "\<lparr>tasks = [Processing, NotStarted], counter = 1, closerPc = Unstarted,
      closed = False, mainPc = Spawning (Suc 0), printed = [], panicked = False\<rparr>"
  let ?s2 = "\<lparr>tasks = [Processing, Processing], counter = 2, closerPc = Unstarted,
      closed = False, mainPc = Spawning (Suc (Suc 0)), printed = [], panicked = False\<rparr>"
  let ?s3 = "\<lparr>tasks = [Processing, Processing], counter = 2, closerPc = Waiting,
      closed = False, mainPc = Receiving, printed = [], panicked = False\<rparr>"
  let ?s4 = "\<lparr>tasks = [Sending (Report ''x.txt'' ?e), Processing], counter = 2,
      closerPc = Waiting, closed = False, mainPc = Receiving, printed = [],
      panicked = False\<rparr>"
  let ?s5 = "\<lparr>tasks = [Sending (Report ''x.txt'' ?e), Sending (Report ''y.txt'' ?e)],
      counter = 2, closerPc = Waiting, closed = False, mainPc = Receiving, printed = [],
      panicked = False\<rparr>"
  have l: "length emptyFiles = Suc (Suc 0)" by (simp add: emptyFiles_def)
  have n: "Name (emptyFiles ! 0) = ''x.txt''" "Name (emptyFiles ! Suc 0) = ''y.txt''"
    by (simp_all add: emptyFiles_def)
  have r0: "reachable emptyFiles emptyOutcome ?s0"
    using reachable.reach_initial [of emptyFiles emptyOutcome] by (simp add: initial_def l)
  have "step emptyFiles emptyOutcome ?s0 ?s1"
    using step.spawn_task [of ?s0 0 emptyFiles emptyOutcome] by (simp add: l)
  with r0 have r1: "reachable emptyFiles emptyOutcome ?s1" by (rule reachable.reach_step)
  have "step emptyFiles emptyOutcome ?s1 ?s2"
    using step.spawn_task [of ?s1 "Suc 0" emptyFiles emptyOutcome] by (simp add: l)
  with r1 have r2: "reachable emptyFiles emptyOutcome ?s2" by (rule reachable.reach_step)
  have "step emptyFiles emptyOutcome ?s2 ?s3"
    using step.spawn_closer [of ?s2 "Suc (Suc 0)" emptyFiles emptyOutcome] by (simp add: l)
  with r2 have r3: "reachable emptyFiles emptyOutcome ?s3" by (rule reachable.reach_step)
  have "step emptyFiles emptyOutcome ?s3 ?s4"
    using step.process_failed [of 0 ?s3 emptyOutcome ?e emptyFiles]
    by (simp add: emptyOutcome_values n)
  with r3 have r4: "reachable emptyFiles emptyOutcome ?s4" by (rule reachable.reach_step)
  have "step emptyFiles emptyOutcome ?s4 ?s5"
    using step.process_failed [of "Suc 0" ?s4 emptyOutcome ?e emptyFiles]
    by (simp add: emptyOutcome_values n)
  with r4 have r5: "reachable emptyFiles emptyOutcome ?s5" by (rule reachable.reach_step)
  have "step emptyFiles emptyOutcome ?s5 blockedState"
    using step.send_receive [of 0 ?s5 "Report ''x.txt'' ?e" emptyFiles emptyOutcome]
    by (simp add: blockedState_def)
  with r5 show ?thesis by (rule reachable.reach_step)
qed

text \<open>
  C9 as stated fails in its first part. With two failing files the orchestrator reaches
  a state in which the second task is at the send while the main goroutine is at the
  \<open>Printf\<close> of the first error: the send of the second task cannot happen there.
\<close>

theorem send_blocks_counterexample:
  "reachable emptyFiles emptyOutcome blockedState
   \<and> tasks blockedState ! Suc 0 = Sending (Report ''y.txt'' ''file size must be positive'')
   \<and> mainPc blockedState = Printing (Report ''x.txt'' ''file size must be positive'')
   \<and> blocked blockedState (Suc 0)"
  using blockedState_reachable by (simp add: blockedState_def blocked_def)

theorem close_after_all_tasks_no_send_after_close_witness:
  "reachable emptyFiles emptyOutcome blockedState
   \<and> \<not> panicked blockedState
   \<and> \<not> closed blockedState
   \<and> (\<exists>s' s''. (step emptyFiles emptyOutcome)\<^sup>*\<^sup>* blockedState s'
          \<and> step emptyFiles emptyOutcome s' s''
          \<and> tasks s' ! Suc 0 = Sending (Report ''y.txt'' ''file size must be positive'')
          \<and> tasks s'' ! Suc 0 = Returning
          \<and> mainPc s'' = Printing (Report ''y.txt'' ''file size must be positive''))"
proof -
  note t = close_after_all_tasks_no_send_after_close [OF blockedState_reachable]
  from t have a: "\<not> panicked blockedState" by blast
  have h: "Suc 0 < length emptyFiles
      \<and> tasks blockedState ! Suc 0 = Sending (Report ''y.txt'' ''file size must be positive'')"
    by (simp add: emptyFiles_def blockedState_def)
  from t have "\<forall>i r. i < length emptyFiles \<and> tasks blockedState ! i = Sending r \<longrightarrow>
            \<not> closed blockedState
            \<and> (\<exists>s' s''. (step emptyFiles emptyOutcome)\<^sup>*\<^sup>* blockedState s'
                  \<and> step emptyFiles emptyOutcome s' s''
                  \<and> tasks s' ! i = Sending r \<and> tasks s'' ! i = Returning
                  \<and> mainPc s'' = Printing r)" by blast
  with h have "\<not> closed blockedState
            \<and> (\<exists>s' s''. (step emptyFiles emptyOutcome)\<^sup>*\<^sup>* blockedState s'
                  \<and> step emptyFiles emptyOutcome s' s''
                  \<and> tasks s' ! Suc 0
                      = Sending (Report ''y.txt'' ''file size must be positive'')
                  \<and> tasks s'' ! Suc 0 = Returning
                  \<and> mainPc s'' = Printing (Report ''y.txt'' ''file size must be positive''))"
    by blast
  with a blockedState_reachable show ?thesis by blast
qed

end
